theory Spec2Isabelle
  imports Main "HOL-Library.Sublist"
begin

section \<open>The backfiller of \<open>clustering/backfiller.hpp\<close>\<close>

text \<open>
  \<open>backfiller_t\<close> answers two kinds of message. A start-backfill message runs
  \<open>on_backfill\<close> in a coroutine of its own: it registers a local interruptor under the
  session id, calls the store's streaming operation (which suspends and resumes many
  times) and, when the store has returned, sends the confirmation. A cancel-backfill
  message runs \<open>on_cancel_backfill\<close>, which pulses the registered interruptor.
  Coroutines are cooperative and confined to one thread (\<open>assert_thread()\<close>), so the
  model is a transition system: one event is one uninterrupted stretch of code between
  two suspension points, and a schedule is a list of events.
\<close>

subsection \<open>Values of the protocol\<close>

type_synonym session_id_t = nat
type_synonym address_t = nat
type_synonym state_timestamp_t = nat
type_synonym backfill_chunk_t = nat
type_synonym backfill_request_t = nat
type_synonym branch_id_t = nat
type_synonym region_t = "nat set"

text \<open>What \<open>branch_find(branch_history, store_branch)\<close> returns; the constructor reads
  the two fields below.\<close>

record branch_birth_certificate_t =
  region :: region_t
  initial_timestamp :: state_timestamp_t

text \<open>The exceptions that can leave \<open>store->backfiller(...)\<close>: the interruption, and
  any other type, which \<open>catch (interrupted_exc_t)\<close> does not match.\<close>

datatype exception_t = interrupted_exc_t | store_exc_t

text \<open>
  What ends a schedule: a failed assertion, a pulse of a signal that is pulsed already, a
  pulse through a pointer to an interruptor that no longer exists, an erase from the map
  \<open>local_interruptors\<close> after its destruction (undefined behaviour in C++), and an
  exception that nothing catches.
\<close>

datatype error =
    Assertion_failed
  | Pulse_of_pulsed_signal
  | Dangling_interruptor
  | Use_after_destruction
  | Uncaught_exception exception_t

text \<open>
  Modelled from the spec: the macro \<open>rassert\<close> is not among the sources. Section 4.1
  of the specification calls the two checks of the constructor "checked synchronously,
  fatal if violated".
\<close>

definition rassert :: "bool \<Rightarrow> error + unit" where
  "rassert b = (if b then Inr () else Inl Assertion_failed)"

subsection \<open>The store's streaming operation\<close>

text \<open>
  Modelled from the spec: \<open>ready_store_t::backfiller(request, send_fun, interruptor)\<close>
  is not among the sources. Sections 5 and 6 of the specification describe it: it
  produces chunks one after the other through the sink it is given, it suspends
  (waiting for I/O or for the interrupt), it observes the interrupt cooperatively when
  it is resumed and then fails by unwinding, and otherwise it returns the timestamp it
  reached. A \<open>store_run\<close> is what one call still has to do; \<open>Block\<close> is a call that
  only an interrupt ends, \<open>Throw\<close> one that fails with an exception of its own.
\<close>

datatype store_run =
    Produce backfill_chunk_t store_run
  | Wait store_run
  | Return state_timestamp_t
  | Throw
  | Block

datatype store_outcome = Returned state_timestamp_t | Threw exception_t

datatype store_progress =
    Emitted backfill_chunk_t store_run
  | Suspended store_run
  | Finished store_outcome

fun store_step :: "bool \<Rightarrow> store_run \<Rightarrow> store_progress" where
  "store_step True r = Finished (Threw interrupted_exc_t)"
| "store_step False (Produce c r) = Emitted c r"
| "store_step False (Wait r) = Suspended r"
| "store_step False (Return t) = Finished (Returned t)"
| "store_step False Throw = Finished (Threw store_exc_t)"
| "store_step False Block = Suspended Block"

record ready_store_t =
  get_region :: region_t
  get_timestamp :: state_timestamp_t
  backfiller :: "backfill_request_t \<Rightarrow> store_run"

subsection \<open>Messages and the state\<close>

text \<open>
  What \<open>send(cluster, address, payload)\<close> is called with. The first field of a message
  is not on the wire: it is the session id of the handler that sent it, kept so that the
  messages of one session can be told from the others.
\<close>

datatype message =
    Chunk_msg session_id_t address_t backfill_chunk_t
  | Completion_msg session_id_t address_t state_timestamp_t

fun msg_session :: "message \<Rightarrow> session_id_t" where
  "msg_session (Chunk_msg sid a c) = sid"
| "msg_session (Completion_msg sid a t) = sid"

fun is_completion :: "message \<Rightarrow> bool" where
  "is_completion (Chunk_msg sid a c) = False"
| "is_completion (Completion_msg sid a t) = True"

text \<open>
  One running call of \<open>on_backfill\<close>: its arguments, the address of its local
  \<open>cond_t local_interruptor\<close> (a fresh address for every call) and what the call of
  \<open>store->backfiller\<close> it is suspended in still has to do.
\<close>

record frame =
  local_interruptor :: nat
  session_id :: session_id_t
  chunk_cont :: address_t
  end_cont :: address_t
  store_call :: store_run

text \<open>
  The members of \<open>backfiller_t\<close> that have a destructor of their own, in the order of
  their declaration (lines 101 to 107).
\<close>

datatype member =
    Drainer
  | Local_interruptors
  | Backfill_mailbox
  | Cancel_backfill_mailbox
  | Advertisement

definition declared_members :: "member list" where
  "declared_members =
     [Drainer, Local_interruptors, Backfill_mailbox, Cancel_backfill_mailbox, Advertisement]"

text \<open>
  The members of \<open>backfiller_t\<close> in the order of their declaration, then the parts of
  the runtime the handlers act on: the \<open>cond_t\<close> objects by address (\<open>True\<close> once
  pulsed), the coroutines suspended in \<open>on_backfill\<close>, the outbox of the cluster and the
  record published in the metadata view. \<open>drainer_locks\<close> counts the living
  \<open>auto_drainer_t::lock_t\<close> objects: one bound into each mailbox callback by the
  constructor, and one copy for every handler call in progress. \<open>registry_destroyed\<close>
  tells that the destructor of the map \<open>local_interruptors\<close> has run, and \<open>teardown\<close>
  lists the members destroyed so far, in the order in which their destructors ran.
\<close>

record backfiller_state =
  branch_history :: "branch_id_t \<Rightarrow> branch_birth_certificate_t"
  store :: ready_store_t
  store_branch :: branch_id_t
  drain_signal :: bool
  drainer_locks :: nat
  local_interruptors :: "session_id_t \<rightharpoonup> nat"
  registry_destroyed :: bool
  backfill_mailbox :: "address_t option"
  cancel_backfill_mailbox :: "address_t option"
  advertisement :: "(address_t \<times> address_t) option"
  conds :: "nat \<rightharpoonup> bool"
  next_cond :: nat
  in_flight :: "frame list"
  outbox :: "message list"
  teardown :: "member list"
  destroyed :: bool

text \<open>Of the cluster, the constructor uses the addresses it gives to new mailboxes.\<close>

record mailbox_cluster_t =
  next_mailbox :: address_t

text \<open>
  Modelled from the spec: \<open>branch_find\<close> is not among the sources. Section 4.1 of the
  specification writes it \<open>branch_history.lookup(store_branch)\<close>: the metadata the
  registry holds for the branch.
\<close>

definition branch_find ::
  "(branch_id_t \<Rightarrow> branch_birth_certificate_t) \<Rightarrow> branch_id_t \<Rightarrow> branch_birth_certificate_t" where
  "branch_find bh b = bh b"

subsection \<open>The constructor\<close>

text \<open>
  The member initialisers run first, in the order of declaration: the drainer, the empty
  map, the two mailboxes (each binds one lock of the drainer) and the advertisement of
  their addresses. The body then makes its two checks.
\<close>

definition backfiller_t ::
  "mailbox_cluster_t \<Rightarrow> (branch_id_t \<Rightarrow> branch_birth_certificate_t) \<Rightarrow> ready_store_t
     \<Rightarrow> branch_id_t \<Rightarrow> error + backfiller_state" where
  "backfiller_t c bh s sb =
     (let a1 = next_mailbox c; a2 = Suc (next_mailbox c);
          b = \<lparr> branch_history = bh, store = s, store_branch = sb,
                drain_signal = False, drainer_locks = 2,
                local_interruptors = Map.empty, registry_destroyed = False,
                backfill_mailbox = Some a1, cancel_backfill_mailbox = Some a2,
                advertisement = Some (a1, a2),
                conds = Map.empty, next_cond = 0, in_flight = [], outbox = [],
                teardown = [], destroyed = False \<rparr>
      in case rassert (get_region s = region (branch_find bh sb)) of
           Inl e \<Rightarrow> Inl e
         | Inr _ \<Rightarrow>
             (case rassert (get_timestamp s \<ge> initial_timestamp (branch_find bh sb)) of
                Inl e \<Rightarrow> Inl e
              | Inr _ \<Rightarrow> Inr b))"

subsection \<open>The handlers\<close>

text \<open>
  Modelled from the spec: the transport function \<open>send\<close> is not among the sources.
  Sections 2 and 6 of the specification: delivery is asynchronous and ordered per address;
  the outbox records the messages in the order of the calls.
\<close>

definition send :: "message \<Rightarrow> backfiller_state \<Rightarrow> backfiller_state" where
  "send m st = st\<lparr> outbox := outbox st @ [m] \<rparr>"

text \<open>
  Modelled from the spec: \<open>auto_drainer_t::lock_t\<close> is not among the sources. Section 4.2
  and the design notes of the specification: every handler holds a lease on the counter of
  the drain barrier from entry to return. The lock is the last parameter of both handlers,
  a copy of the one bound into the callback: it is made when the mailbox calls the
  handler and given up when the handler has returned.
\<close>

definition lock_acquire :: "backfiller_state \<Rightarrow> backfiller_state" where
  "lock_acquire st = st\<lparr> drainer_locks := Suc (drainer_locks st) \<rparr>"

definition lock_release :: "backfiller_state \<Rightarrow> backfiller_state" where
  "lock_release st = st\<lparr> drainer_locks := drainer_locks st - 1 \<rparr>"

text \<open>
  Modelled from the spec: \<open>wait_any_t\<close> is not among the sources. Section 4.2 of the
  specification: the combined interrupt of
  \<open>wait_any_t interrupted(&local_interruptor, keepalive.get_drain_signal())\<close> is the local
  interrupt or the shutdown signal, whichever fires first.
\<close>

definition interrupted :: "backfiller_state \<Rightarrow> frame \<Rightarrow> bool" where
  "interrupted st f = (conds st (local_interruptor f) = Some True \<or> drain_signal st)"

text \<open>
  Modelled from the spec: \<open>map_insertion_sentry_t\<close> is not among the sources. Section 3
  of the specification: the entry is inserted at the start of the handling (the
  constructor of the sentry) and removed unconditionally when it concludes (its
  destructor). The specification requires session ids to be unique among the outstanding
  requests and does not say what an insertion under a key already present does; here it
  replaces the entry.
\<close>

definition sentry_insert ::
  "session_id_t \<Rightarrow> nat \<Rightarrow> (session_id_t \<rightharpoonup> nat) \<Rightarrow> (session_id_t \<rightharpoonup> nat)" where
  "sentry_insert sid h m = m(sid \<mapsto> h)"

definition sentry_erase :: "session_id_t \<Rightarrow> (session_id_t \<rightharpoonup> nat) \<Rightarrow> (session_id_t \<rightharpoonup> nat)" where
  "sentry_erase sid m = m(sid := None)"

text \<open>
  Lines 44 to 62 of \<open>on_backfill\<close>, up to the call of the store: the interruptor is
  created unpulsed, the sentry \<open>be_interruptible\<close> puts its address into the map under
  the session id, and the coroutine enters \<open>store->backfiller(request, send_fun,
  &interrupted)\<close>.
\<close>

definition on_backfill_enter ::
  "session_id_t \<Rightarrow> backfill_request_t \<Rightarrow> address_t \<Rightarrow> address_t \<Rightarrow> backfiller_state
     \<Rightarrow> backfiller_state" where
  "on_backfill_enter sid request cc ec st =
     (let h = next_cond st;
          f = \<lparr> local_interruptor = h, session_id = sid, chunk_cont = cc, end_cont = ec,
                store_call = backfiller (store st) request \<rparr>
      in st\<lparr> conds := (conds st)(h \<mapsto> False), next_cond := Suc h,
              local_interruptors := sentry_insert sid h (local_interruptors st),
              in_flight := in_flight st @ [f] \<rparr>)"

text \<open>\<open>send_fun\<close>: \<open>send\<close> bound to the cluster and to \<open>chunk_cont\<close>.\<close>

definition send_fun :: "frame \<Rightarrow> backfill_chunk_t \<Rightarrow> backfiller_state \<Rightarrow> backfiller_state" where
  "send_fun f c st = send (Chunk_msg (session_id f) (chunk_cont f) c) st"

text \<open>
  Leaving the scope of \<open>on_backfill\<close>, by return or by unwinding: the sentry takes the
  entry out of the map, the local interruptor is destroyed, the coroutine ends. The
  destructor of the sentry erases from the member \<open>local_interruptors\<close>; when the
  destructor of that map has run already, the erase is undefined behaviour, and the
  schedule ends there.
\<close>

definition scope_exit :: "frame \<Rightarrow> backfiller_state \<Rightarrow> backfiller_state" where
  "scope_exit f st =
     st\<lparr> local_interruptors := sentry_erase (session_id f) (local_interruptors st),
         conds := (conds st)(local_interruptor f := None),
         in_flight := filter (\<lambda>g. local_interruptor g \<noteq> local_interruptor f) (in_flight st) \<rparr>"

definition leave_scope :: "frame \<Rightarrow> backfiller_state \<Rightarrow> error + backfiller_state" where
  "leave_scope f st =
     (if registry_destroyed st then Inl Use_after_destruction else Inr (scope_exit f st))"

datatype handler_exit =
    Handler_returned backfiller_state
  | Handler_threw exception_t backfiller_state
  | Handler_crashed error

text \<open>
  Lines 65 to 82, from the moment the call of the store ends. A returned timestamp sets
  \<open>success\<close> and the confirmation is sent; \<open>interrupted_exc_t\<close> is caught, the assertion
  is checked and nothing is sent; the handler of the \<open>try\<close> block matches no other
  exception, which therefore leaves \<open>on_backfill\<close>.
\<close>

definition on_backfill_exit :: "frame \<Rightarrow> store_outcome \<Rightarrow> backfiller_state \<Rightarrow> handler_exit" where
  "on_backfill_exit f outcome st =
     (case outcome of
        Returned final \<Rightarrow>
          (case leave_scope f (send (Completion_msg (session_id f) (end_cont f) final) st) of
             Inl e \<Rightarrow> Handler_crashed e
           | Inr st' \<Rightarrow> Handler_returned st')
      | Threw interrupted_exc_t \<Rightarrow>
          (case rassert (interrupted st f) of
             Inl e \<Rightarrow> Handler_crashed e
           | Inr _ \<Rightarrow>
               (case leave_scope f st of
                  Inl e \<Rightarrow> Handler_crashed e
                | Inr st' \<Rightarrow> Handler_returned st'))
      | Threw store_exc_t \<Rightarrow>
          (case leave_scope f st of
             Inl e \<Rightarrow> Handler_crashed e
           | Inr st' \<Rightarrow> Handler_threw store_exc_t st'))"

text \<open>
  Modelled from the spec: \<open>cond_t::pulse\<close> is not among the sources. Section 4.3 of the
  specification: the signal is one-shot, and triggering a signal that is already
  triggered is a programming error.
\<close>

definition pulse :: "nat \<Rightarrow> backfiller_state \<Rightarrow> error + backfiller_state" where
  "pulse h st =
     (case conds st h of
        None \<Rightarrow> Inl Dangling_interruptor
      | Some True \<Rightarrow> Inl Pulse_of_pulsed_signal
      | Some False \<Rightarrow> Inr (st\<lparr> conds := (conds st)(h \<mapsto> True) \<rparr>))"

definition on_cancel_backfill :: "session_id_t \<Rightarrow> backfiller_state \<Rightarrow> error + backfiller_state" where
  "on_cancel_backfill sid st =
     (case local_interruptors st sid of
        None \<Rightarrow> Inr st
      | Some h \<Rightarrow> pulse h st)"

subsection \<open>Destruction\<close>

text \<open>
  Modelled from the spec: \<open>auto_drainer_t\<close>, \<open>resource_advertisement_t\<close> and the mailboxes
  are not among the sources (sections 2, 3 and 4.4 of the specification): destroying the
  advertisement withdraws the published record, destroying a mailbox stops deliveries and
  gives up the lock bound into its callback, and the destructor of the drainer pulses the
  drain signal and blocks until every lock is released. The destructor of the map
  \<open>local_interruptors\<close> is that of \<open>std::map\<close>: its entries are gone and the object
  must not be used any more.
\<close>

fun destroy :: "member \<Rightarrow> backfiller_state \<Rightarrow> backfiller_state" where
  "destroy Advertisement st =
     st\<lparr> advertisement := None, teardown := teardown st @ [Advertisement] \<rparr>"
| "destroy Cancel_backfill_mailbox st =
     lock_release (st\<lparr> cancel_backfill_mailbox := None,
                      teardown := teardown st @ [Cancel_backfill_mailbox] \<rparr>)"
| "destroy Backfill_mailbox st =
     lock_release (st\<lparr> backfill_mailbox := None,
                      teardown := teardown st @ [Backfill_mailbox] \<rparr>)"
| "destroy Local_interruptors st =
     st\<lparr> local_interruptors := Map.empty, registry_destroyed := True,
         teardown := teardown st @ [Local_interruptors] \<rparr>"
| "destroy Drainer st =
     st\<lparr> drain_signal := True, teardown := teardown st @ [Drainer] \<rparr>"

text \<open>
  \<open>backfiller_t\<close> declares no destructor, so its members are destroyed in the reverse
  order of their declaration, one after the other and without a suspension: the
  advertisement, the cancel mailbox, the backfill mailbox, the map, and then the drainer,
  whose destructor pulses the drain signal and starts to wait.
\<close>

definition begin_destroy :: "backfiller_state \<Rightarrow> backfiller_state" where
  "begin_destroy st = fold destroy (rev declared_members) st"

definition drainer_finish :: "backfiller_state \<Rightarrow> backfiller_state" where
  "drainer_finish st =
     (if drain_signal st \<and> drainer_locks st = 0 then st\<lparr> destroyed := True \<rparr> else st)"

subsection \<open>Schedules\<close>

text \<open>
  The events of a schedule: the delivery of a message to one of the two mailboxes (lost
  when the mailbox is gone), the resumption of the coroutine whose interruptor has the
  given address, the start of the destruction and the attempt of the drainer's destructor
  to return. An event that is not enabled leaves the state as it is.
\<close>

datatype event =
    Deliver_backfill session_id_t backfill_request_t address_t address_t
  | Deliver_cancel session_id_t
  | Resume nat
  | Begin_destroy
  | Finish_destroy

text \<open>
  A handler that returns gives up its lock. Nothing in these sources catches an exception
  that leaves a handler or survives a failed assertion: the schedule ends with the error.
\<close>

definition handler_return :: "handler_exit \<Rightarrow> error + backfiller_state" where
  "handler_return x =
     (case x of
        Handler_returned st \<Rightarrow> Inr (lock_release st)
      | Handler_threw e st \<Rightarrow> Inl (Uncaught_exception e)
      | Handler_crashed e \<Rightarrow> Inl e)"

text \<open>
  One resumption of the coroutine suspended in \<open>store->backfiller\<close>: the store observes
  the combined interrupt and takes its next step; a chunk goes through \<open>send_fun\<close>, and
  the end of the call continues in \<open>on_backfill\<close>.
\<close>

definition advance :: "frame \<Rightarrow> store_run \<Rightarrow> frame \<Rightarrow> frame" where
  "advance f r g = (if local_interruptor g = local_interruptor f then g\<lparr> store_call := r \<rparr> else g)"

definition set_store_call :: "frame \<Rightarrow> store_run \<Rightarrow> backfiller_state \<Rightarrow> backfiller_state" where
  "set_store_call f r st = st\<lparr> in_flight := map (advance f r) (in_flight st) \<rparr>"

definition resume :: "nat \<Rightarrow> backfiller_state \<Rightarrow> error + backfiller_state" where
  "resume h st =
     (case find (\<lambda>f. local_interruptor f = h) (in_flight st) of
        None \<Rightarrow> Inr st
      | Some f \<Rightarrow>
          (case store_step (interrupted st f) (store_call f) of
             Emitted c r \<Rightarrow> Inr (send_fun f c (set_store_call f r st))
           | Suspended r \<Rightarrow> Inr (set_store_call f r st)
           | Finished outcome \<Rightarrow> handler_return (on_backfill_exit f outcome st)))"

fun step :: "event \<Rightarrow> backfiller_state \<Rightarrow> error + backfiller_state" where
  "step (Deliver_backfill sid request cc ec) st =
     (if backfill_mailbox st = None then Inr st
      else Inr (on_backfill_enter sid request cc ec (lock_acquire st)))"
| "step (Deliver_cancel sid) st =
     (if cancel_backfill_mailbox st = None then Inr st
      else map_sum id lock_release (on_cancel_backfill sid (lock_acquire st)))"
| "step (Resume h) st = resume h st"
| "step Begin_destroy st = (if drain_signal st then Inr st else Inr (begin_destroy st))"
| "step Finish_destroy st = Inr (drainer_finish st)"

fun run :: "event list \<Rightarrow> backfiller_state \<Rightarrow> error + backfiller_state" where
  "run [] st = Inr st"
| "run (e # es) st = (case step e st of Inl err \<Rightarrow> Inl err | Inr st' \<Rightarrow> run es st')"

subsection \<open>Observations on schedules and states\<close>

text \<open>The session ids of the start-backfill messages of a schedule, in order.\<close>

fun started :: "event list \<Rightarrow> session_id_t list" where
  "started [] = []"
| "started (Deliver_backfill sid request cc ec # es) = sid # started es"
| "started (e # es) = started es"

fun cancelled :: "event list \<Rightarrow> session_id_t set" where
  "cancelled [] = {}"
| "cancelled (Deliver_cancel sid # es) = insert sid (cancelled es)"
| "cancelled (e # es) = cancelled es"

definition sent_for :: "session_id_t \<Rightarrow> message list \<Rightarrow> message list" where
  "sent_for sid ms = filter (\<lambda>m. msg_session m = sid) ms"

definition completions_for :: "session_id_t \<Rightarrow> message list \<Rightarrow> message list" where
  "completions_for sid ms = filter (\<lambda>m. is_completion m \<and> msg_session m = sid) ms"

definition handlers_of :: "session_id_t \<Rightarrow> backfiller_state \<Rightarrow> frame list" where
  "handlers_of sid st = filter (\<lambda>f. session_id f = sid) (in_flight st)"

text \<open>The chunks a call of the store produces when nothing interrupts it, the timestamp
  it returns, and the messages a session then consists of.\<close>

fun chunks :: "store_run \<Rightarrow> backfill_chunk_t list" where
  "chunks (Produce c r) = c # chunks r"
| "chunks (Wait r) = chunks r"
| "chunks (Return t) = []"
| "chunks Throw = []"
| "chunks Block = []"

fun final_timestamp :: "store_run \<Rightarrow> state_timestamp_t option" where
  "final_timestamp (Produce c r) = final_timestamp r"
| "final_timestamp (Wait r) = final_timestamp r"
| "final_timestamp (Return t) = Some t"
| "final_timestamp Throw = None"
| "final_timestamp Block = None"

definition stream :: "session_id_t \<Rightarrow> address_t \<Rightarrow> address_t \<Rightarrow> store_run \<Rightarrow> message list" where
  "stream sid cc ec r =
     map (Chunk_msg sid cc) (chunks r) @
     (case final_timestamp r of None \<Rightarrow> [] | Some t \<Rightarrow> [Completion_msg sid ec t])"

text \<open>Every running handler owns a living interruptor of its own.\<close>

definition conds_ok :: "backfiller_state \<Rightarrow> bool" where
  "conds_ok st \<longleftrightarrow>
     (\<forall>f \<in> set (in_flight st). local_interruptor f < next_cond st
        \<and> conds st (local_interruptor f) \<noteq> None)
     \<and> distinct (map local_interruptor (in_flight st))"

text \<open>Every entry of the registry points to the interruptor of a running handler of that
  session; and the registry holds exactly the running handlers.\<close>

definition registry_sound :: "backfiller_state \<Rightarrow> bool" where
  "registry_sound st \<longleftrightarrow>
     (\<forall>sid h. local_interruptors st sid = Some h \<longrightarrow>
        (\<exists>f \<in> set (in_flight st). session_id f = sid \<and> local_interruptor f = h))"

definition registry_exact :: "backfiller_state \<Rightarrow> bool" where
  "registry_exact st \<longleftrightarrow>
     (\<forall>sid h. local_interruptors st sid = Some h \<longleftrightarrow>
        (\<exists>f \<in> set (in_flight st). session_id f = sid \<and> local_interruptor f = h))"

text \<open>The locks of the drainer: two for the mailboxes while they live, one for each
  running handler. The destruction is one step, so the drain signal is pulsed exactly
  when the advertisement, the mailboxes and the map are gone.\<close>

definition locks_ok :: "backfiller_state \<Rightarrow> bool" where
  "locks_ok st \<longleftrightarrow>
     drainer_locks st = (if drain_signal st then 0 else 2) + length (in_flight st)
     \<and> (drain_signal st \<longleftrightarrow> backfill_mailbox st = None)
     \<and> (drain_signal st \<longleftrightarrow> cancel_backfill_mailbox st = None)
     \<and> (drain_signal st \<longleftrightarrow> advertisement st = None)
     \<and> (drain_signal st \<longleftrightarrow> registry_destroyed st)
     \<and> (destroyed st \<longrightarrow> drain_signal st \<and> in_flight st = [])"

definition invariant :: "backfiller_state \<Rightarrow> bool" where
  "invariant st \<longleftrightarrow> conds_ok st \<and> registry_sound st \<and> locks_ok st"

text \<open>
  Three facts about a state reached by a schedule: every message sent and every running
  handler belongs to a session id of the given set; what a running handler has sent,
  followed by what its call of the store still has to produce, is the whole stream of the
  start-backfill message it answers; and what has been sent for the session of a
  start-backfill message is a prefix of that stream.
\<close>

definition sessions_known :: "session_id_t set \<Rightarrow> backfiller_state \<Rightarrow> bool" where
  "sessions_known A st \<longleftrightarrow>
     (\<forall>m \<in> set (outbox st). msg_session m \<in> A)
     \<and> (\<forall>f \<in> set (in_flight st). session_id f \<in> A)"

definition on_track :: "ready_store_t \<Rightarrow> event list \<Rightarrow> backfiller_state \<Rightarrow> bool" where
  "on_track s evs st \<longleftrightarrow>
     (\<forall>f \<in> set (in_flight st). \<exists>request.
        Deliver_backfill (session_id f) request (chunk_cont f) (end_cont f) \<in> set evs
        \<and> sent_for (session_id f) (outbox st)
            @ stream (session_id f) (chunk_cont f) (end_cont f) (store_call f)
          = stream (session_id f) (chunk_cont f) (end_cont f) (backfiller s request))"

definition in_order :: "ready_store_t \<Rightarrow> event list \<Rightarrow> backfiller_state \<Rightarrow> bool" where
  "in_order s evs st \<longleftrightarrow>
     (\<forall>sid request cc ec. Deliver_backfill sid request cc ec \<in> set evs \<longrightarrow>
        prefix (sent_for sid (outbox st)) (stream sid cc ec (backfiller s request)))"

text \<open>A schedule in which no start-backfill message arrives for a session id that a
  running handler is using (section 3 of the specification: the session id is unique per
  outstanding backfill request).\<close>

fun starts_fresh :: "event \<Rightarrow> backfiller_state \<Rightarrow> bool" where
  "starts_fresh (Deliver_backfill sid request cc ec) st = (sid \<notin> session_id ` set (in_flight st))"
| "starts_fresh e st = True"

fun fresh_sessions :: "event list \<Rightarrow> backfiller_state \<Rightarrow> bool" where
  "fresh_sessions [] st = True"
| "fresh_sessions (e # es) st =
     (starts_fresh e st \<and> (case step e st of Inl err \<Rightarrow> True | Inr st' \<Rightarrow> fresh_sessions es st'))"

subsection \<open>A concrete backfiller\<close>

text \<open>A store on branch 0 with region \<open>{1, 2}\<close> at timestamp 5, whose streaming operation
  yields two chunks and returns 9 for request 0, blocks for request 1 and fails for any
  other request.\<close>

definition example_store :: ready_store_t where
  "example_store =
     \<lparr> get_region = {1, 2}, get_timestamp = 5,
       backfiller = (\<lambda>request. if request = 0 then Produce 7 (Produce 8 (Return 9))
                               else if request = 1 then Block else Throw) \<rparr>"

definition example_history :: "branch_id_t \<Rightarrow> branch_birth_certificate_t" where
  "example_history b = \<lparr> region = {1, 2}, initial_timestamp = 5 \<rparr>"

definition example_backfiller :: backfiller_state where
  "example_backfiller =
     \<lparr> branch_history = example_history, store = example_store, store_branch = 0,
       drain_signal = False, drainer_locks = 2,
       local_interruptors = Map.empty, registry_destroyed = False,
       backfill_mailbox = Some 100, cancel_backfill_mailbox = Some 101,
       advertisement = Some (100, 101),
       conds = Map.empty, next_cond = 0, in_flight = [], outbox = [],
       teardown = [], destroyed = False \<rparr>"

text \<open>The same backfiller while it handles session 3 with the request that blocks, and
  after a cancel-backfill message for that session.\<close>

definition example_running :: backfiller_state where
  "example_running = on_backfill_enter 3 1 20 21 (lock_acquire example_backfiller)"

definition example_cancelled :: backfiller_state where
  "example_cancelled = example_running\<lparr> conds := (conds example_running)(0 \<mapsto> True) \<rparr>"

definition example_frame :: frame where
  "example_frame = \<lparr> local_interruptor = 0, session_id = 3, chunk_cont = 20, end_cont = 21,
     store_call = Block \<rparr>"

text \<open>A schedule in which session 5 runs to its end: the handler enters, and the store is
  resumed three times.\<close>

definition example_schedule :: "event list" where
  "example_schedule = [Deliver_backfill 5 0 20 21, Resume 0, Resume 0, Resume 0]"

text \<open>The same schedule without its last resumption: the store has produced its two
  chunks and is about to return.\<close>

definition example_returning :: "event list" where
  "example_returning = [Deliver_backfill 5 0 20 21, Resume 0, Resume 0]"

section \<open>Properties\<close>

lemma lock_release_acquire: "lock_release (lock_acquire st) = st"
  by (simp add: lock_release_def lock_acquire_def)

subsection \<open>The cases of a step\<close>

lemma resume_cases [consumes 1, case_names Idle Emit Suspend Finish Interrupt]:
  assumes "resume h st = Inr st'"
  obtains
    (Idle) "find (\<lambda>f. local_interruptor f = h) (in_flight st) = None" "st' = st"
  | (Emit) f c r where "find (\<lambda>f. local_interruptor f = h) (in_flight st) = Some f"
      "\<not> interrupted st f" "store_call f = Produce c r"
      "st' = send_fun f c (set_store_call f r st)"
  | (Suspend) f r where "find (\<lambda>f. local_interruptor f = h) (in_flight st) = Some f"
      "\<not> interrupted st f" "store_call f = Wait r \<or> (store_call f = Block \<and> r = Block)"
      "st' = set_store_call f r st"
  | (Finish) f t where "find (\<lambda>f. local_interruptor f = h) (in_flight st) = Some f"
      "\<not> interrupted st f" "store_call f = Return t"
      "st' = lock_release (scope_exit f (send (Completion_msg (session_id f) (end_cont f) t) st))"
      "\<not> registry_destroyed st"
  | (Interrupt) f where "find (\<lambda>f. local_interruptor f = h) (in_flight st) = Some f"
      "interrupted st f" "st' = lock_release (scope_exit f st)"
      "\<not> registry_destroyed st"
proof (cases "find (\<lambda>f. local_interruptor f = h) (in_flight st)")
  case None
  with assms have "st' = st" by (simp add: resume_def)
  with None show ?thesis by (rule Idle)
next
  case (Some f)
  show ?thesis
  proof (cases "interrupted st f")
    case True
    with assms Some have "st' = lock_release (scope_exit f st) \<and> \<not> registry_destroyed st"
      by (simp add: resume_def on_backfill_exit_def handler_return_def rassert_def
          leave_scope_def split: if_splits)
    with Some True show ?thesis by (auto intro: Interrupt)
  next
    case False
    show ?thesis
    proof (cases "store_call f")
      case (Produce c r)
      with assms Some False have "st' = send_fun f c (set_store_call f r st)"
        by (simp add: resume_def)
      with Some False Produce show ?thesis by (rule Emit)
    next
      case (Wait r)
      with assms Some False have "st' = set_store_call f r st"
        by (simp add: resume_def)
      with Some False Wait show ?thesis by (auto intro: Suspend)
    next
      case (Return t)
      with assms Some False
      have "st' = lock_release (scope_exit f (send (Completion_msg (session_id f) (end_cont f) t) st))
          \<and> \<not> registry_destroyed st"
        by (simp add: resume_def on_backfill_exit_def handler_return_def leave_scope_def send_def
            split: if_splits)
      with Some False Return show ?thesis by (auto intro: Finish)
    next
      case Throw
      with assms Some False show ?thesis
        by (simp add: resume_def on_backfill_exit_def handler_return_def leave_scope_def
            split: if_splits)
    next
      case Block
      with assms Some False have "st' = set_store_call f Block st"
        by (simp add: resume_def)
      with Some False Block show ?thesis by (auto intro: Suspend)
    qed
  qed
qed

lemma cancel_cases [consumes 1, case_names Absent Pulse]:
  assumes "on_cancel_backfill sid st = Inr st'"
  obtains
    (Absent) "local_interruptors st sid = None" "st' = st"
  | (Pulse) h where "local_interruptors st sid = Some h" "conds st h = Some False"
      "st' = st\<lparr> conds := (conds st)(h \<mapsto> True) \<rparr>"
  using assms
  by (auto simp: on_cancel_backfill_def pulse_def split: option.splits bool.splits)

lemma step_cases [consumes 1, case_names Stutter Start Cancel Emit Suspend Finish Interrupt Destroy Drained]:
  assumes "step e st = Inr st'"
  obtains
    (Stutter) "st' = st"
  | (Start) sid request cc ec where "e = Deliver_backfill sid request cc ec"
      "backfill_mailbox st \<noteq> None"
      "st' = on_backfill_enter sid request cc ec (lock_acquire st)"
  | (Cancel) sid h where "e = Deliver_cancel sid" "cancel_backfill_mailbox st \<noteq> None"
      "local_interruptors st sid = Some h" "conds st h = Some False"
      "st' = st\<lparr> conds := (conds st)(h \<mapsto> True) \<rparr>"
  | (Emit) h f c r where "e = Resume h"
      "find (\<lambda>f. local_interruptor f = h) (in_flight st) = Some f"
      "\<not> interrupted st f" "store_call f = Produce c r"
      "st' = send_fun f c (set_store_call f r st)"
  | (Suspend) h f r where "e = Resume h"
      "find (\<lambda>f. local_interruptor f = h) (in_flight st) = Some f"
      "\<not> interrupted st f" "store_call f = Wait r \<or> (store_call f = Block \<and> r = Block)"
      "st' = set_store_call f r st"
  | (Finish) h f t where "e = Resume h"
      "find (\<lambda>f. local_interruptor f = h) (in_flight st) = Some f"
      "\<not> interrupted st f" "store_call f = Return t"
      "st' = lock_release (scope_exit f (send (Completion_msg (session_id f) (end_cont f) t) st))"
      "\<not> registry_destroyed st"
  | (Interrupt) h f where "e = Resume h"
      "find (\<lambda>f. local_interruptor f = h) (in_flight st) = Some f"
      "interrupted st f" "st' = lock_release (scope_exit f st)"
      "\<not> registry_destroyed st"
  | (Destroy) "e = Begin_destroy" "\<not> drain_signal st" "st' = begin_destroy st"
  | (Drained) "e = Finish_destroy" "drain_signal st" "drainer_locks st = 0"
      "st' = st\<lparr> destroyed := True \<rparr>"
proof (cases e)
  case (Deliver_backfill sid request cc ec)
  with assms show ?thesis
    by (cases "backfill_mailbox st = None") (auto intro: Stutter Start)
next
  case (Deliver_cancel sid)
  show ?thesis
  proof (cases "cancel_backfill_mailbox st = None")
    case True
    with assms Deliver_cancel show ?thesis by (auto intro: Stutter)
  next
    case False
    with assms Deliver_cancel obtain s1 where
      s1: "on_cancel_backfill sid (lock_acquire st) = Inr s1" and st': "st' = lock_release s1"
      by (cases "on_cancel_backfill sid (lock_acquire st)") auto
    from s1 show ?thesis
    proof (cases rule: cancel_cases)
      case Absent
      with st' have "st' = st" by (simp add: lock_release_acquire)
      then show ?thesis by (rule Stutter)
    next
      case (Pulse h)
      then have "local_interruptors st sid = Some h" "conds st h = Some False"
        "st' = st\<lparr> conds := (conds st)(h \<mapsto> True) \<rparr>"
        using st' by (simp_all add: lock_acquire_def lock_release_def)
      with Deliver_cancel False show ?thesis by (auto intro: Cancel)
    qed
  qed
next
  case (Resume h)
  with assms have "resume h st = Inr st'" by simp
  then show ?thesis
  proof (cases rule: resume_cases)
    case Idle then show ?thesis by (auto intro: Stutter)
  next
    case (Emit f c r) with Resume show ?thesis by (auto intro: that(4))
  next
    case (Suspend f r) with Resume show ?thesis by (auto intro: that(5))
  next
    case (Finish f t) with Resume show ?thesis by (auto intro: that(6))
  next
    case (Interrupt f) with Resume show ?thesis by (auto intro: that(7))
  qed
next
  case Begin_destroy
  with assms show ?thesis
    by (cases "drain_signal st") (auto intro: Stutter Destroy)
next
  case Finish_destroy
  with assms show ?thesis
    by (cases "drain_signal st \<and> drainer_locks st = 0") (auto simp: drainer_finish_def intro: Stutter Drained)
qed


lemmas op_defs = on_backfill_enter_def lock_acquire_def lock_release_def send_def send_fun_def
  set_store_call_def scope_exit_def begin_destroy_def declared_members_def
  sentry_insert_def sentry_erase_def

lemma begin_destroy_sel:
  "advertisement (begin_destroy st) = None"
  "backfill_mailbox (begin_destroy st) = None"
  "cancel_backfill_mailbox (begin_destroy st) = None"
  "drain_signal (begin_destroy st) = True"
  "in_flight (begin_destroy st) = in_flight st"
  "destroyed (begin_destroy st) = destroyed st"
  "conds (begin_destroy st) = conds st"
  "outbox (begin_destroy st) = outbox st"
  "local_interruptors (begin_destroy st) = Map.empty"
  "drainer_locks (begin_destroy st) = drainer_locks st - 1 - 1"
  "registry_destroyed (begin_destroy st) = True"
  "teardown (begin_destroy st) = teardown st
     @ [Advertisement, Cancel_backfill_mailbox, Backfill_mailbox, Local_interruptors, Drainer]"
  "next_cond (begin_destroy st) = next_cond st"
  "store (begin_destroy st) = store st"
  by (simp_all add: op_defs)

lemma find_frame:
  "find (\<lambda>f. local_interruptor f = h) xs = Some f \<Longrightarrow> f \<in> set xs \<and> local_interruptor f = h"
  by (induction xs) (auto split: if_splits)

lemma constructed_state:
  assumes "backfiller_t c bh s sb = Inr st"
  shows "in_flight st = []" "outbox st = []" "local_interruptors st = Map.empty"
    "conds st = Map.empty" "drain_signal st = False" "destroyed st = False"
    "drainer_locks st = 2" "store st = s" "branch_history st = bh" "store_branch st = sb"
    "backfill_mailbox st \<noteq> None" "cancel_backfill_mailbox st \<noteq> None"
    "advertisement st \<noteq> None" "registry_destroyed st = False" "teardown st = []"
  using assms
  by (auto simp: backfiller_t_def rassert_def Let_def split: if_splits)

lemma advance_sel [simp]:
  "local_interruptor (advance f r g) = local_interruptor g"
  "session_id (advance f r g) = session_id g"
  "chunk_cont (advance f r g) = chunk_cont g"
  "end_cont (advance f r g) = end_cont g"
  by (simp_all add: advance_def)

lemma advance_comp [simp]:
  "local_interruptor \<circ> advance f r = local_interruptor"
  "session_id \<circ> advance f r = session_id"
  by (simp_all add: fun_eq_iff)

lemma same_interruptor:
  "distinct (map local_interruptor xs) \<Longrightarrow> f \<in> set xs \<Longrightarrow> g \<in> set xs
     \<Longrightarrow> local_interruptor g = local_interruptor f \<Longrightarrow> g = f"
  by (auto simp: distinct_map dest: inj_onD)

lemma exit_sel [simp]:
  "local_interruptors (lock_release (scope_exit f st)) = (local_interruptors st)(session_id f := None)"
  "in_flight (lock_release (scope_exit f st)) =
     filter (\<lambda>g. local_interruptor g \<noteq> local_interruptor f) (in_flight st)"
  "conds (lock_release (scope_exit f st)) = (conds st)(local_interruptor f := None)"
  "outbox (lock_release (scope_exit f st)) = outbox st"
  "next_cond (lock_release (scope_exit f st)) = next_cond st"
  "drain_signal (lock_release (scope_exit f st)) = drain_signal st"
  "drainer_locks (lock_release (scope_exit f st)) = drainer_locks st - 1"
  "registry_destroyed (lock_release (scope_exit f st)) = registry_destroyed st"
  by (simp_all add: op_defs)

lemma send_sel [simp]:
  "local_interruptors (send m st) = local_interruptors st"
  "in_flight (send m st) = in_flight st"
  "conds (send m st) = conds st"
  "outbox (send m st) = outbox st @ [m]"
  "next_cond (send m st) = next_cond st"
  "drain_signal (send m st) = drain_signal st"
  "drainer_locks (send m st) = drainer_locks st"
  "registry_destroyed (send m st) = registry_destroyed st"
  by (simp_all add: op_defs)

lemma registry_sound_exit:
  assumes r: "registry_sound st" and c: "conds_ok st" and f: "f \<in> set (in_flight st)"
    and eq: "local_interruptors st' = (local_interruptors st)(session_id f := None)"
      "in_flight st' = filter (\<lambda>g. local_interruptor g \<noteq> local_interruptor f) (in_flight st)"
  shows "registry_sound st'"
  unfolding registry_sound_def
proof (intro allI impI)
  fix sid k
  assume a: "local_interruptors st' sid = Some k"
  have ne: "sid \<noteq> session_id f"
    using a eq(1) by (cases "sid = session_id f") simp_all
  then have "local_interruptors st sid = Some k" using a eq(1) by simp
  with r obtain g where g: "g \<in> set (in_flight st)" "session_id g = sid" "local_interruptor g = k"
    unfolding registry_sound_def by blast
  have d: "distinct (map local_interruptor (in_flight st))" using c by (simp add: conds_ok_def)
  have "local_interruptor g \<noteq> local_interruptor f"
  proof
    assume "local_interruptor g = local_interruptor f"
    then have "g = f" using same_interruptor [OF d f g(1)] by simp
    with g(2) ne show False by simp
  qed
  with g(1) have "g \<in> set (in_flight st')" using eq(2) by simp
  with g show "\<exists>g \<in> set (in_flight st'). session_id g = sid \<and> local_interruptor g = k" by blast
qed

lemma conds_ok_step:
  assumes "conds_ok st" "step e st = Inr st'"
  shows "conds_ok st'"
  using assms(2)
proof (cases rule: step_cases)
  case Stutter
  with assms show ?thesis by simp
next
  case (Start sid request cc ec)
  with assms(1) show ?thesis
    by (fastforce simp: conds_ok_def op_defs Let_def)
next
  case (Cancel sid h)
  with assms(1) show ?thesis by (auto simp: conds_ok_def)
next
  case (Emit h f c r)
  with assms(1) show ?thesis
    by (auto simp: conds_ok_def op_defs)
next
  case (Suspend h f r)
  with assms(1) show ?thesis
    by (auto simp: conds_ok_def op_defs)
next
  case (Finish h f t)
  with assms(1) show ?thesis
    by (auto simp: conds_ok_def distinct_map_filter)
next
  case (Interrupt h f)
  with assms(1) show ?thesis
    by (auto simp: conds_ok_def distinct_map_filter)
next
  case Destroy
  with assms(1) show ?thesis by (auto simp: conds_ok_def op_defs)
next
  case Drained
  with assms(1) show ?thesis by (auto simp: conds_ok_def)
qed

lemma ex_advance:
  "(\<exists>g \<in> set (map (advance f r) xs). session_id g = sid \<and> local_interruptor g = h)
     \<longleftrightarrow> (\<exists>g \<in> set xs. session_id g = sid \<and> local_interruptor g = h)"
  by auto

lemma registry_sound_step:
  assumes "registry_sound st" "step e st = Inr st'" and c: "conds_ok st"
  shows "registry_sound st'"
  using assms(2)
proof (cases rule: step_cases)
  case Stutter
  with assms show ?thesis by simp
next
  case (Start sid request cc ec)
  with assms(1) show ?thesis
    by (fastforce simp: registry_sound_def op_defs Let_def)
next
  case (Cancel sid h)
  with assms(1) show ?thesis by (auto simp: registry_sound_def)
next
  case (Emit h f c r)
  with assms(1) show ?thesis
    unfolding registry_sound_def by (simp add: op_defs ex_advance)
next
  case (Suspend h f r)
  with assms(1) show ?thesis
    unfolding registry_sound_def by (simp add: op_defs ex_advance)
next
  case (Finish h f t)
  have f: "f \<in> set (in_flight st)" using find_frame [OF Finish(2)] by simp
  show ?thesis
    by (rule registry_sound_exit [OF assms(1) c f]) (simp_all add: Finish(5))
next
  case (Interrupt h f)
  have f: "f \<in> set (in_flight st)" using find_frame [OF Interrupt(2)] by simp
  show ?thesis
    by (rule registry_sound_exit [OF assms(1) c f]) (simp_all add: Interrupt(4))
next
  case Destroy
  with assms(1) show ?thesis by (auto simp: registry_sound_def op_defs)
next
  case Drained
  with assms(1) show ?thesis by (auto simp: registry_sound_def)
qed

lemma length_filter_out:
  "distinct (map k xs) \<Longrightarrow> f \<in> set xs \<Longrightarrow> Suc (length (filter (\<lambda>g. k g \<noteq> k f) xs)) = length xs"
proof (induction xs)
  case Nil
  then show ?case by simp
next
  case (Cons x xs)
  show ?case
  proof (cases "k x = k f")
    case True
    with Cons.prems(1) have "k f \<notin> k ` set xs" by simp
    then have "\<forall>g \<in> set xs. k g \<noteq> k f" by (metis imageI)
    then have "filter (\<lambda>g. k g \<noteq> k f) xs = xs" by simp
    with True show ?thesis by simp
  next
    case False
    with Cons show ?thesis by auto
  qed
qed

lemma locks_ok_exit:
  assumes l: "locks_ok st" and c: "conds_ok st" and f: "f \<in> set (in_flight st)"
    and eq: "in_flight st' = filter (\<lambda>g. local_interruptor g \<noteq> local_interruptor f) (in_flight st)"
      "drainer_locks st' = drainer_locks st - 1" "drain_signal st' = drain_signal st"
      "backfill_mailbox st' = backfill_mailbox st"
      "cancel_backfill_mailbox st' = cancel_backfill_mailbox st"
      "advertisement st' = advertisement st" "destroyed st' = destroyed st"
      "registry_destroyed st' = registry_destroyed st"
  shows "locks_ok st'"
proof -
  have d: "distinct (map local_interruptor (in_flight st))" using c by (simp add: conds_ok_def)
  have n: "Suc (length (in_flight st')) = length (in_flight st)"
    unfolding eq(1) by (rule length_filter_out [OF d f])
  have "in_flight st \<noteq> []" using f by auto
  with l have nd: "\<not> destroyed st" by (auto simp: locks_ok_def)
  from l n nd show ?thesis
    unfolding locks_ok_def eq(2-8) by auto
qed

lemma locks_ok_step:
  assumes "locks_ok st" "step e st = Inr st'" and c: "conds_ok st"
  shows "locks_ok st'"
  using assms(2)
proof (cases rule: step_cases)
  case Stutter
  with assms show ?thesis by simp
next
  case (Start sid request cc ec)
  with assms(1) show ?thesis
    by (auto simp: locks_ok_def op_defs Let_def)
next
  case (Cancel sid h)
  with assms(1) show ?thesis by (auto simp: locks_ok_def)
next
  case (Emit h f c r)
  with assms(1) show ?thesis
    by (auto simp: locks_ok_def op_defs)
next
  case (Suspend h f r)
  with assms(1) show ?thesis
    by (auto simp: locks_ok_def op_defs)
next
  case (Finish h f t)
  have f: "f \<in> set (in_flight st)" using find_frame [OF Finish(2)] by simp
  show ?thesis
    by (rule locks_ok_exit [OF assms(1) c f]) (simp_all add: Finish(5), simp_all add: op_defs)
next
  case (Interrupt h f)
  have f: "f \<in> set (in_flight st)" using find_frame [OF Interrupt(2)] by simp
  show ?thesis
    by (rule locks_ok_exit [OF assms(1) c f]) (simp_all add: Interrupt(4), simp_all add: op_defs)
next
  case Destroy
  with assms(1) show ?thesis by (auto simp: locks_ok_def op_defs)
next
  case Drained
  with assms(1) show ?thesis by (auto simp: locks_ok_def)
qed

lemma invariant_step: "invariant st \<Longrightarrow> step e st = Inr st' \<Longrightarrow> invariant st'"
  unfolding invariant_def
  using conds_ok_step registry_sound_step locks_ok_step by blast

lemma invariant_run: "invariant st \<Longrightarrow> run evs st = Inr st' \<Longrightarrow> invariant st'"
proof (induction evs arbitrary: st)
  case Nil
  then show ?case by simp
next
  case (Cons e evs)
  from Cons.prems(2) obtain s1 where s1: "step e st = Inr s1" and r: "run evs s1 = Inr st'"
    by (cases "step e st") auto
  from Cons.prems(1) s1 have "invariant s1" by (rule invariant_step)
  then show ?case using r by (rule Cons.IH)
qed

lemma invariant_constructed: "backfiller_t c bh s sb = Inr b \<Longrightarrow> invariant b"
  using constructed_state [of c bh s sb b]
  by (simp add: invariant_def conds_ok_def registry_sound_def locks_ok_def)

lemma run_Cons_Inr:
  "run (e # es) st = Inr st' \<longleftrightarrow> (\<exists>s1. step e st = Inr s1 \<and> run es s1 = Inr st')"
  by (cases "step e st") auto

lemma run_append:
  "run (es @ fs) st = (case run es st of Inl err \<Rightarrow> Inl err | Inr s1 \<Rightarrow> run fs s1)"
proof (induction es arbitrary: st)
  case Nil
  then show ?case by simp
next
  case (Cons e es)
  then show ?case by (cases "step e st") simp_all
qed

lemma configuration_step:
  assumes "step e st = Inr st'"
  shows "store st' = store st \<and> branch_history st' = branch_history st
    \<and> store_branch st' = store_branch st"
  using assms by (cases rule: step_cases) (simp_all add: op_defs Let_def)

lemma configuration_run:
  "run evs st = Inr st' \<Longrightarrow> store st' = store st \<and> branch_history st' = branch_history st
    \<and> store_branch st' = store_branch st"
proof (induction evs arbitrary: st)
  case Nil
  then show ?case by simp
next
  case (Cons e evs)
  from Cons.prems obtain s1 where "step e st = Inr s1" "run evs s1 = Inr st'"
    by (cases "step e st") auto
  with Cons.IH [of s1] configuration_step [of e st s1] show ?case by simp
qed

lemma step_cancel_present:
  assumes "cancel_backfill_mailbox st \<noteq> None" "local_interruptors st sid = Some h"
    "conds st h = Some False"
  shows "on_cancel_backfill sid st = Inr (st\<lparr> conds := (conds st)(h \<mapsto> True) \<rparr>)"
    and "step (Deliver_cancel sid) st = Inr (st\<lparr> conds := (conds st)(h \<mapsto> True) \<rparr>)"
proof -
  show "on_cancel_backfill sid st = Inr (st\<lparr> conds := (conds st)(h \<mapsto> True) \<rparr>)"
    using assms by (simp add: on_cancel_backfill_def pulse_def)
  have "on_cancel_backfill sid (lock_acquire st)
      = Inr (lock_acquire st\<lparr> conds := (conds st)(h \<mapsto> True) \<rparr>)"
    using assms by (simp add: on_cancel_backfill_def pulse_def lock_acquire_def)
  moreover have "lock_release (lock_acquire st\<lparr> conds := (conds st)(h \<mapsto> True) \<rparr>)
      = st\<lparr> conds := (conds st)(h \<mapsto> True) \<rparr>"
    by (simp add: lock_acquire_def lock_release_def)
  ultimately show "step (Deliver_cancel sid) st = Inr (st\<lparr> conds := (conds st)(h \<mapsto> True) \<rparr>)"
    using assms(1) by auto
qed

lemma step_cancel_pulsed:
  assumes "cancel_backfill_mailbox st \<noteq> None" "local_interruptors st sid = Some h"
    "conds st h = Some True"
  shows "on_cancel_backfill sid st = Inl Pulse_of_pulsed_signal"
    and "step (Deliver_cancel sid) st = Inl Pulse_of_pulsed_signal"
proof -
  show "on_cancel_backfill sid st = Inl Pulse_of_pulsed_signal"
    using assms by (simp add: on_cancel_backfill_def pulse_def)
  have "on_cancel_backfill sid (lock_acquire st) = Inl Pulse_of_pulsed_signal"
    using assms by (simp add: on_cancel_backfill_def pulse_def lock_acquire_def)
  then show "step (Deliver_cancel sid) st = Inl Pulse_of_pulsed_signal"
    using assms(1) by auto
qed

lemma step_resume_interrupted:
  assumes "find (\<lambda>g. local_interruptor g = h) (in_flight st) = Some f" "interrupted st f"
    "\<not> registry_destroyed st"
  shows "step (Resume h) st = Inr (lock_release (scope_exit f st))"
  using assms
  by (simp add: resume_def on_backfill_exit_def handler_return_def rassert_def leave_scope_def)

lemma step_resume_after_destruction:
  assumes "find (\<lambda>g. local_interruptor g = h) (in_flight st) = Some f" "interrupted st f"
    "registry_destroyed st"
  shows "step (Resume h) st = Inl Use_after_destruction"
  using assms
  by (simp add: resume_def on_backfill_exit_def handler_return_def rassert_def leave_scope_def)

lemma step_resume_return:
  assumes "find (\<lambda>g. local_interruptor g = h) (in_flight st) = Some f" "\<not> interrupted st f"
    "store_call f = Return t" "\<not> registry_destroyed st"
  shows "step (Resume h) st
    = Inr (lock_release (scope_exit f (send (Completion_msg (session_id f) (end_cont f) t) st)))"
  using assms
  by (simp add: resume_def on_backfill_exit_def handler_return_def leave_scope_def send_def)

lemma step_resume_emit:
  assumes "find (\<lambda>g. local_interruptor g = h) (in_flight st) = Some f" "\<not> interrupted st f"
    "store_call f = Produce c r"
  shows "step (Resume h) st = Inr (send_fun f c (set_store_call f r st))"
  using assms by (simp add: resume_def)

lemma step_resume_throw:
  assumes "find (\<lambda>g. local_interruptor g = h) (in_flight st) = Some f" "\<not> interrupted st f"
    "store_call f = Throw" "\<not> registry_destroyed st"
  shows "step (Resume h) st = Inl (Uncaught_exception store_exc_t)"
  using assms
  by (simp add: resume_def on_backfill_exit_def handler_return_def leave_scope_def)

lemmas example_defs = example_running_def example_cancelled_def example_backfiller_def
  example_store_def example_frame_def

lemma example_running_sel:
  "in_flight example_running = [example_frame]"
  "local_interruptors example_running = [3 \<mapsto> 0]"
  "conds example_running = [0 \<mapsto> False]"
  "outbox example_running = []"
  "drain_signal example_running = False"
  "backfill_mailbox example_running = Some 100"
  "cancel_backfill_mailbox example_running = Some 101"
  "advertisement example_running = Some (100, 101)"
  "drainer_locks example_running = 3"
  "next_cond example_running = 1"
  "destroyed example_running = False"
  "registry_destroyed example_running = False"
  "teardown example_running = []"
  by (simp_all add: example_defs op_defs Let_def)

lemma example_cancelled_sel:
  "in_flight example_cancelled = [example_frame]"
  "local_interruptors example_cancelled = [3 \<mapsto> 0]"
  "conds example_cancelled = [0 \<mapsto> True]"
  "outbox example_cancelled = []"
  "drain_signal example_cancelled = False"
  "cancel_backfill_mailbox example_cancelled = Some 101"
  "registry_destroyed example_cancelled = False"
  by (simp_all add: example_cancelled_def example_running_sel)

lemma example_running_step:
  "step (Deliver_backfill 3 1 20 21) example_backfiller = Inr example_running"
  by (simp add: example_running_def example_backfiller_def)

lemma example_cancelled_step:
  "step (Deliver_cancel 3) example_running = Inr example_cancelled"
  using step_cancel_present(2) [of example_running 3 0]
  by (simp add: example_running_sel example_cancelled_def)

lemma example_find:
  "find (\<lambda>g. local_interruptor g = 0) (in_flight example_running) = Some example_frame"
  "find (\<lambda>g. local_interruptor g = 0) (in_flight example_cancelled) = Some example_frame"
  by (simp_all add: example_running_sel example_cancelled_sel example_frame_def)



lemma example_failing_step:
  "step (Deliver_backfill 4 2 30 31) example_backfiller
     = Inr (on_backfill_enter 4 2 30 31 (lock_acquire example_backfiller))"
  by (simp add: example_backfiller_def)

lemma example_failing_sel:
  "in_flight (on_backfill_enter 4 2 30 31 (lock_acquire example_backfiller))
     = [\<lparr> local_interruptor = 0, session_id = 4, chunk_cont = 30, end_cont = 31, store_call = Throw \<rparr>]"
  "conds (on_backfill_enter 4 2 30 31 (lock_acquire example_backfiller)) = [0 \<mapsto> False]"
  "drain_signal (on_backfill_enter 4 2 30 31 (lock_acquire example_backfiller)) = False"
  "outbox (on_backfill_enter 4 2 30 31 (lock_acquire example_backfiller)) = []"
  "registry_destroyed (on_backfill_enter 4 2 30 31 (lock_acquire example_backfiller)) = False"
  by (simp_all add: example_defs op_defs Let_def)

lemma pulsed_step:
  assumes inv: "invariant st"
    and p: "\<forall>f \<in> set (in_flight st). conds st (local_interruptor f) = Some True \<longrightarrow> session_id f \<in> C"
    and s: "step e st = Inr st'"
  shows "\<forall>f \<in> set (in_flight st'). conds st' (local_interruptor f) = Some True
           \<longrightarrow> session_id f \<in> C \<union> cancelled [e]"
  using s
proof (cases rule: step_cases)
  case Stutter
  with p show ?thesis by simp
next
  case (Start sid request cc ec)
  have "\<forall>f \<in> set (in_flight st). local_interruptor f \<noteq> next_cond st"
    using inv by (auto simp: invariant_def conds_ok_def)
  with p show ?thesis unfolding Start by (auto simp: op_defs Let_def)
next
  case (Cancel sid h)
  from inv Cancel(3) obtain g where g: "g \<in> set (in_flight st)" "session_id g = sid" "local_interruptor g = h"
    by (auto simp: invariant_def registry_sound_def)
  have d: "distinct (map local_interruptor (in_flight st))"
    using inv by (simp add: invariant_def conds_ok_def)
  show ?thesis
  proof
    fix f assume f: "f \<in> set (in_flight st')"
    then have f': "f \<in> set (in_flight st)" by (simp add: Cancel(5))
    show "conds st' (local_interruptor f) = Some True \<longrightarrow> session_id f \<in> C \<union> cancelled [e]"
    proof (cases "local_interruptor f = h")
      case True
      then have "f = g" using same_interruptor [OF d g(1) f'] g(3) by simp
      with g(2) Cancel(1) show ?thesis by simp
    next
      case False
      with p f' show ?thesis by (simp add: Cancel(5))
    qed
  qed
next
  case (Emit h f c r)
  with p show ?thesis by (auto simp: op_defs)
next
  case (Suspend h f r)
  with p show ?thesis by (auto simp: op_defs)
next
  case (Finish h f t)
  with p show ?thesis by auto
next
  case (Interrupt h f)
  with p show ?thesis by auto
next
  case Destroy
  with p show ?thesis by (auto simp: op_defs)
next
  case Drained
  with p show ?thesis by auto
qed

lemma cancelled_Cons: "cancelled (e # es) = cancelled [e] \<union> cancelled es"
  by (cases e) simp_all

lemma pulsed_run:
  assumes "invariant st"
    and "\<forall>f \<in> set (in_flight st). conds st (local_interruptor f) = Some True \<longrightarrow> session_id f \<in> C"
    and "run evs st = Inr st'"
  shows "\<forall>f \<in> set (in_flight st'). conds st' (local_interruptor f) = Some True
           \<longrightarrow> session_id f \<in> C \<union> cancelled evs"
  using assms
proof (induction evs arbitrary: st C)
  case Nil
  then show ?case by simp
next
  case (Cons e evs)
  from Cons.prems(3) obtain s1 where s1: "step e st = Inr s1" and r: "run evs s1 = Inr st'"
    by (cases "step e st") auto
  have i1: "invariant s1" using Cons.prems(1) s1 by (rule invariant_step)
  have p1: "\<forall>f \<in> set (in_flight s1). conds s1 (local_interruptor f) = Some True
           \<longrightarrow> session_id f \<in> C \<union> cancelled [e]"
    using Cons.prems(1,2) s1 by (rule pulsed_step)
  have "\<forall>f \<in> set (in_flight st'). conds st' (local_interruptor f) = Some True
           \<longrightarrow> session_id f \<in> (C \<union> cancelled [e]) \<union> cancelled evs"
    using i1 p1 r by (rule Cons.IH)
  then show ?case by (simp add: cancelled_Cons [of e evs] Un_assoc)
qed

lemma first_cancel_unpulsed:
  assumes "backfiller_t c bh s sb = Inr b" "run evs b = Inr st"
    "local_interruptors st sid = Some h" "sid \<notin> cancelled evs"
  shows "conds st h = Some False"
proof -
  have ib: "invariant b" using assms(1) by (rule invariant_constructed)
  then have inv: "invariant st" using assms(2) by (rule invariant_run)
  have "\<forall>f \<in> set (in_flight b). conds b (local_interruptor f) = Some True \<longrightarrow> session_id f \<in> {}"
    using constructed_state(1) [OF assms(1)] by simp
  with ib have p: "\<forall>f \<in> set (in_flight st). conds st (local_interruptor f) = Some True
           \<longrightarrow> session_id f \<in> {} \<union> cancelled evs"
    using assms(2) by (rule pulsed_run)
  from inv assms(3) obtain g where g: "g \<in> set (in_flight st)" "session_id g = sid" "local_interruptor g = h"
    by (auto simp: invariant_def registry_sound_def)
  with inv obtain v where v: "conds st h = Some v"
    by (auto simp: invariant_def conds_ok_def)
  with p g assms(4) show ?thesis by (cases v) auto
qed

lemma run_step: "step e st = Inr s1 \<Longrightarrow> run (e # es) st = run es s1"
  by simp

lemma run_step_error: "step e st = Inl x \<Longrightarrow> run (e # es) st = Inl x"
  by simp

lemma example_running_run:
  "run [Deliver_backfill 3 1 20 21] example_backfiller = Inr example_running"
  by (simp only: run_step [OF example_running_step] run.simps(1))

lemma example_cancelled_run:
  "run [Deliver_backfill 3 1 20 21, Deliver_cancel 3] example_backfiller = Inr example_cancelled"
  by (simp only: run_step [OF example_running_step] run_step [OF example_cancelled_step] run.simps(1))

lemma destroyed_drained:
  assumes "backfiller_t c bh s sb = Inr b" "run evs b = Inr st"
  shows "destroyed st \<longrightarrow> in_flight st = [] \<and> drain_signal st"
    and "in_flight st \<noteq> [] \<longrightarrow> step Finish_destroy st = Inr st \<and> \<not> destroyed st"
    and "drain_signal st \<longrightarrow> advertisement st = None \<and> backfill_mailbox st = None
           \<and> cancel_backfill_mailbox st = None"
proof -
  have "invariant st"
    using invariant_constructed [OF assms(1)] assms(2) by (rule invariant_run)
  then have l: "locks_ok st" by (simp add: invariant_def)
  then show "destroyed st \<longrightarrow> in_flight st = [] \<and> drain_signal st"
    by (auto simp: locks_ok_def)
  from l show "in_flight st \<noteq> [] \<longrightarrow> step Finish_destroy st = Inr st \<and> \<not> destroyed st"
    by (auto simp: locks_ok_def drainer_finish_def)
  from l show "drain_signal st \<longrightarrow> advertisement st = None \<and> backfill_mailbox st = None
           \<and> cancel_backfill_mailbox st = None"
    by (auto simp: locks_ok_def)
qed

lemma example_destroy_step:
  "step Begin_destroy example_running = Inr (begin_destroy example_running)"
  by (simp add: example_running_sel)

lemma filter_conj_le: "length (filter (\<lambda>x. Q x \<and> P x) xs) \<le> length (filter P xs)"
  by (induction xs) auto

lemma filter_conj_less:
  "f \<in> set xs \<Longrightarrow> P f \<Longrightarrow> \<not> Q f
     \<Longrightarrow> length (filter (\<lambda>x. Q x \<and> P x) xs) < length (filter P xs)"
  by (induction xs) (auto simp: less_Suc_eq_le filter_conj_le)

lemma handlers_of_advance:
  "filter (\<lambda>g. session_id g = sid) (map (advance f r) xs)
     = map (advance f r) (filter (\<lambda>g. session_id g = sid) xs)"
  by (simp add: filter_map comp_def)

lemma started_Cons: "started (e # es) = started [e] @ started es"
  by (cases e) simp_all

lemma completions_step:
  assumes "step e st = Inr st'"
  shows "length (completions_for sid (outbox st')) + length (handlers_of sid st')
    \<le> length (completions_for sid (outbox st)) + length (handlers_of sid st)
        + count_list (started [e]) sid"
  using assms
proof (cases rule: step_cases)
  case Stutter
  then show ?thesis by simp
next
  case (Start k request cc ec)
  then show ?thesis
    by (simp add: completions_for_def handlers_of_def op_defs Let_def)
next
  case (Cancel k h)
  then show ?thesis by (simp add: completions_for_def handlers_of_def)
next
  case (Emit h f c r)
  then show ?thesis
    by (simp add: completions_for_def handlers_of_def op_defs handlers_of_advance)
next
  case (Suspend h f r)
  then show ?thesis
    by (simp add: completions_for_def handlers_of_def op_defs handlers_of_advance)
next
  case (Finish h f t)
  have f: "f \<in> set (in_flight st)" using find_frame [OF Finish(2)] by simp
  show ?thesis
  proof (cases "session_id f = sid")
    case True
    have "length (filter (\<lambda>g. local_interruptor g \<noteq> local_interruptor f \<and> session_id g = sid)
            (in_flight st))
        < length (filter (\<lambda>g. session_id g = sid) (in_flight st))"
      using f True by (intro filter_conj_less [of f]) simp_all
    then show ?thesis
      by (simp add: Finish(5) completions_for_def handlers_of_def)
  next
    case False
    have "length (filter (\<lambda>g. local_interruptor g \<noteq> local_interruptor f \<and> session_id g = sid)
            (in_flight st))
        \<le> length (filter (\<lambda>g. session_id g = sid) (in_flight st))"
      by (rule filter_conj_le)
    with False show ?thesis
      by (simp add: Finish(5) completions_for_def handlers_of_def)
  qed
next
  case (Interrupt h f)
  have "length (filter (\<lambda>g. local_interruptor g \<noteq> local_interruptor f \<and> session_id g = sid)
            (in_flight st))
        \<le> length (filter (\<lambda>g. session_id g = sid) (in_flight st))"
    by (rule filter_conj_le)
  then show ?thesis
    by (simp add: Interrupt(4) completions_for_def handlers_of_def)
next
  case Destroy
  then show ?thesis by (simp add: completions_for_def handlers_of_def begin_destroy_sel)
next
  case Drained
  then show ?thesis by (simp add: completions_for_def handlers_of_def)
qed

lemma completions_run:
  assumes "run evs st = Inr st'"
  shows "length (completions_for sid (outbox st')) + length (handlers_of sid st')
    \<le> length (completions_for sid (outbox st)) + length (handlers_of sid st)
        + count_list (started evs) sid"
  using assms
proof (induction evs arbitrary: st)
  case Nil
  then show ?case by simp
next
  case (Cons e evs)
  from Cons.prems obtain s1 where s1: "step e st = Inr s1" and r: "run evs s1 = Inr st'"
    by (cases "step e st") auto
  have "count_list (started (e # evs)) sid = count_list (started [e]) sid + count_list (started evs) sid"
    by (subst started_Cons) simp
  with completions_step [OF s1, of sid] Cons.IH [OF r] show ?case by linarith
qed

lemma exit_returned:
  "\<not> registry_destroyed st \<Longrightarrow> on_backfill_exit f (Returned t) st
     = Handler_returned (scope_exit f (send (Completion_msg (session_id f) (end_cont f) t) st))"
  "outbox (scope_exit f (send (Completion_msg (session_id f) (end_cont f) t) st))
     = outbox st @ [Completion_msg (session_id f) (end_cont f) t]"
  by (simp_all add: on_backfill_exit_def leave_scope_def op_defs)

lemma Inr_projr: "\<not> isl x \<Longrightarrow> x = Inr (projr x)"
  by (cases x) simp_all

lemmas eval_defs = resume_def interrupted_def on_backfill_exit_def handler_return_def
  advance_def rassert_def leave_scope_def

lemma example_schedule_run:
  "\<not> isl (run example_schedule example_backfiller)"
  "outbox (projr (run example_schedule example_backfiller))
     = [Chunk_msg 5 20 7, Chunk_msg 5 20 8, Completion_msg 5 21 9]"
  "in_flight (projr (run example_schedule example_backfiller)) = []"
  "local_interruptors (projr (run example_schedule example_backfiller)) 5 = None"
  by (simp_all add: example_schedule_def example_defs op_defs eval_defs Let_def)


lemma registry_complete_step:
  assumes inv: "invariant st"
    and d: "distinct (map session_id (in_flight st))"
    and r: "registry_destroyed st
      \<or> (\<forall>g \<in> set (in_flight st). local_interruptors st (session_id g) = Some (local_interruptor g))"
    and fresh: "starts_fresh e st"
    and s: "step e st = Inr st'"
  shows "distinct (map session_id (in_flight st'))
    \<and> (registry_destroyed st'
      \<or> (\<forall>g \<in> set (in_flight st'). local_interruptors st' (session_id g) = Some (local_interruptor g)))"
  using s
proof (cases rule: step_cases)
  case Stutter
  with d r show ?thesis by simp
next
  case (Start k request cc ec)
  with fresh have "k \<notin> session_id ` set (in_flight st)" by simp
  with d r show ?thesis unfolding Start by (auto simp: op_defs Let_def)
next
  case (Cancel k h)
  with d r show ?thesis by simp
next
  case (Emit h f c r)
  with d r show ?thesis by (simp add: op_defs)
next
  case (Suspend h f r)
  with d r show ?thesis by (simp add: op_defs)
next
  case (Finish h f t)
  have f: "f \<in> set (in_flight st)" using find_frame [OF Finish(2)] by simp
  have "\<forall>g \<in> set (in_flight st). local_interruptor g \<noteq> local_interruptor f \<longrightarrow> session_id g \<noteq> session_id f"
    using d f by (metis distinct_map inj_onD)
  with d r Finish(6) show ?thesis by (simp add: Finish(5) distinct_map_filter)
next
  case (Interrupt h f)
  have f: "f \<in> set (in_flight st)" using find_frame [OF Interrupt(2)] by simp
  have "\<forall>g \<in> set (in_flight st). local_interruptor g \<noteq> local_interruptor f \<longrightarrow> session_id g \<noteq> session_id f"
    using d f by (metis distinct_map inj_onD)
  with d r Interrupt(5) show ?thesis by (simp add: Interrupt(4) distinct_map_filter)
next
  case Destroy
  with d show ?thesis by (simp add: begin_destroy_sel)
next
  case Drained
  with d r show ?thesis by simp
qed

lemma registry_complete_run:
  assumes "invariant st" "distinct (map session_id (in_flight st))"
    "registry_destroyed st
      \<or> (\<forall>g \<in> set (in_flight st). local_interruptors st (session_id g) = Some (local_interruptor g))"
    "fresh_sessions evs st" "run evs st = Inr st'"
  shows "distinct (map session_id (in_flight st'))
    \<and> (registry_destroyed st'
      \<or> (\<forall>g \<in> set (in_flight st'). local_interruptors st' (session_id g) = Some (local_interruptor g)))"
  using assms
proof (induction evs arbitrary: st)
  case Nil
  then show ?case by simp
next
  case (Cons e evs)
  from Cons.prems(5) obtain s1 where s1: "step e st = Inr s1" and r: "run evs s1 = Inr st'"
    by (cases "step e st") auto
  from Cons.prems(4) s1 have fr: "starts_fresh e st" "fresh_sessions evs s1" by simp_all
  have i1: "invariant s1" using Cons.prems(1) s1 by (rule invariant_step)
  from registry_complete_step [OF Cons.prems(1-3) fr(1) s1]
  have "distinct (map session_id (in_flight s1))"
    "registry_destroyed s1
      \<or> (\<forall>g \<in> set (in_flight s1). local_interruptors s1 (session_id g) = Some (local_interruptor g))"
    by simp_all
  from Cons.IH [OF i1 this fr(2) r] show ?case .
qed

lemma registry_exact_run:
  assumes "backfiller_t c bh s sb = Inr b" "fresh_sessions evs b" "run evs b = Inr st"
    "\<not> registry_destroyed st"
  shows "registry_exact st"
proof -
  have ib: "invariant b" using assms(1) by (rule invariant_constructed)
  then have "invariant st" using assms(3) by (rule invariant_run)
  then have snd: "registry_sound st" by (simp add: invariant_def)
  have "in_flight b = []" using constructed_state(1) [OF assms(1)] .
  then have "distinct (map session_id (in_flight b))"
    "registry_destroyed b
      \<or> (\<forall>g \<in> set (in_flight b). local_interruptors b (session_id g) = Some (local_interruptor g))"
    by simp_all
  from registry_complete_run [OF ib this assms(2,3)] assms(4)
  have "\<forall>g \<in> set (in_flight st). local_interruptors st (session_id g) = Some (local_interruptor g)"
    by simp
  with snd show ?thesis unfolding registry_exact_def registry_sound_def by blast
qed

lemma exit_registry:
  assumes "on_backfill_exit f outcome st = Handler_returned st'
    \<or> on_backfill_exit f outcome st = Handler_threw x st'"
  shows "st' = scope_exit f st
     \<or> (\<exists>t. st' = scope_exit f (send (Completion_msg (session_id f) (end_cont f) t) st))"
  using assms
  by (auto simp: on_backfill_exit_def rassert_def leave_scope_def
      split: store_outcome.splits exception_t.splits if_splits)

lemma scope_exit_sel:
  "local_interruptors (scope_exit f st) (session_id f) = None"
  "f \<notin> set (in_flight (scope_exit f st))"
  "outbox (scope_exit f st) = outbox st"
  by (simp_all add: op_defs)

lemma fresh_step:
  "step e st = Inr s1 \<Longrightarrow> fresh_sessions (e # es) st \<longleftrightarrow> starts_fresh e st \<and> fresh_sessions es s1"
  by simp

lemma sent_for_snoc:
  "sent_for k (xs @ [m]) = (if msg_session m = k then sent_for k xs @ [m] else sent_for k xs)"
  by (simp add: sent_for_def)

lemma stream_simps:
  "stream k cc ec (Produce c r) = Chunk_msg k cc c # stream k cc ec r"
  "stream k cc ec (Wait r) = stream k cc ec r"
  "stream k cc ec (Return t) = [Completion_msg k ec t]"
  "stream k cc ec Throw = []"
  "stream k cc ec Block = []"
  by (simp_all add: stream_def)

lemma stream_session: "m \<in> set (stream k cc ec r) \<Longrightarrow> msg_session m = k"
  by (auto simp: stream_def split: option.splits)

lemma started_append: "started (es @ fs) = started es @ started fs"
  by (induction es rule: started.induct) simp_all

lemma started_mem: "Deliver_backfill k request cc ec \<in> set evs \<Longrightarrow> k \<in> set (started evs)"
  by (induction evs rule: started.induct) auto

lemma start_unique:
  "distinct (started evs) \<Longrightarrow> Deliver_backfill k r1 c1 e1 \<in> set evs
     \<Longrightarrow> Deliver_backfill k r2 c2 e2 \<in> set evs \<Longrightarrow> r1 = r2 \<and> c1 = c2 \<and> e1 = e2"
proof (induction evs rule: started.induct)
  case 1
  then show ?case by simp
next
  case (2 sid request cc ec es)
  then show ?case by (auto dest: started_mem)
qed auto

lemma sent_for_unknown:
  "sessions_known A st \<Longrightarrow> k \<notin> A \<Longrightarrow> sent_for k (outbox st) = []"
  by (auto simp: sessions_known_def sent_for_def filter_empty_conv)

lemma sessions_known_step:
  assumes "sessions_known A st" "step e st = Inr st'"
  shows "sessions_known (A \<union> set (started [e])) st'"
  using assms(2)
proof (cases rule: step_cases)
  case Stutter
  with assms(1) show ?thesis by (auto simp: sessions_known_def)
next
  case (Start k request cc ec)
  with assms(1) show ?thesis by (auto simp: sessions_known_def op_defs Let_def)
next
  case (Cancel k h)
  with assms(1) show ?thesis by (auto simp: sessions_known_def)
next
  case (Emit h f c r)
  have "f \<in> set (in_flight st)" using find_frame [OF Emit(2)] by simp
  with assms(1) Emit show ?thesis by (auto simp: sessions_known_def op_defs)
next
  case (Suspend h f r)
  with assms(1) show ?thesis by (auto simp: sessions_known_def op_defs)
next
  case (Finish h f t)
  have "f \<in> set (in_flight st)" using find_frame [OF Finish(2)] by simp
  with assms(1) Finish show ?thesis by (auto simp: sessions_known_def)
next
  case (Interrupt h f)
  with assms(1) show ?thesis by (auto simp: sessions_known_def)
next
  case Destroy
  with assms(1) show ?thesis by (auto simp: sessions_known_def begin_destroy_sel)
next
  case Drained
  with assms(1) show ?thesis by (auto simp: sessions_known_def)
qed

lemma fresh_from_distinct:
  assumes "sessions_known (set (started evs)) st" "distinct (started (evs @ [e]))"
  shows "starts_fresh e st"
proof (cases e)
  case (Deliver_backfill k request cc ec)
  with assms(2) have "k \<notin> set (started evs)" by (simp add: started_append)
  with assms(1) have "k \<notin> session_id ` set (in_flight st)"
    by (auto simp: sessions_known_def)
  with Deliver_backfill show ?thesis by simp
qed simp_all

lemma distinct_sessions_step:
  assumes "distinct (map session_id (in_flight st))" "starts_fresh e st" "step e st = Inr st'"
  shows "distinct (map session_id (in_flight st'))"
  using assms(3)
proof (cases rule: step_cases)
  case (Start k request cc ec)
  with assms(1,2) show ?thesis by (auto simp: op_defs Let_def)
next
  case (Emit h f c r)
  with assms(1) show ?thesis by (simp add: op_defs)
next
  case (Suspend h f r)
  with assms(1) show ?thesis by (simp add: op_defs)
next
  case Destroy
  with assms(1) show ?thesis by (simp add: begin_destroy_sel)
qed (use assms(1) in \<open>simp_all add: distinct_map_filter\<close>)

text \<open>What a step adds to the outbox is the next message of a running handler's stream.\<close>

lemma outbox_step:
  assumes "step e st = Inr st'"
  shows "outbox st' = outbox st
    \<or> (\<exists>f \<in> set (in_flight st). \<exists>m rest. outbox st' = outbox st @ [m]
          \<and> stream (session_id f) (chunk_cont f) (end_cont f) (store_call f) = m # rest)"
  using assms
proof (cases rule: step_cases)
  case (Start k request cc ec)
  then show ?thesis by (simp add: op_defs Let_def)
next
  case (Emit h f c r)
  have f: "f \<in> set (in_flight st)" using find_frame [OF Emit(2)] by simp
  have "outbox st' = outbox st @ [Chunk_msg (session_id f) (chunk_cont f) c]"
    by (simp add: Emit(5) op_defs)
  moreover have "stream (session_id f) (chunk_cont f) (end_cont f) (store_call f)
      = Chunk_msg (session_id f) (chunk_cont f) c # stream (session_id f) (chunk_cont f) (end_cont f) r"
    by (simp add: Emit(4) stream_simps)
  ultimately show ?thesis using f by blast
next
  case (Suspend h f r)
  then show ?thesis by (simp add: op_defs)
next
  case (Finish h f t)
  have f: "f \<in> set (in_flight st)" using find_frame [OF Finish(2)] by simp
  have "outbox st' = outbox st @ [Completion_msg (session_id f) (end_cont f) t]"
    by (simp add: Finish(5))
  moreover have "stream (session_id f) (chunk_cont f) (end_cont f) (store_call f)
      = Completion_msg (session_id f) (end_cont f) t # []"
    by (simp add: Finish(4) stream_simps)
  ultimately show ?thesis using f by blast
next
  case Destroy
  then show ?thesis by (simp add: begin_destroy_sel)
qed simp_all

lemma on_track_mono: "on_track s evs st \<Longrightarrow> on_track s (evs @ [e]) st"
  unfolding on_track_def by fastforce

lemma other_session:
  assumes "distinct (map session_id xs)" "f \<in> set xs" "g \<in> set xs"
    "local_interruptor g \<noteq> local_interruptor f"
  shows "session_id g \<noteq> session_id f"
  using assms by (metis distinct_map inj_onD)

lemma on_track_step:
  assumes inv: "invariant st"
    and d: "distinct (map session_id (in_flight st))"
    and k: "sessions_known (set (started evs)) st"
    and dist: "distinct (started (evs @ [e]))"
    and o: "on_track s evs st"
    and str: "store st = s"
    and stp: "step e st = Inr st'"
  shows "on_track s (evs @ [e]) st'"
  using stp
proof (cases rule: step_cases)
  case Stutter
  with o show ?thesis by (simp add: on_track_mono)
next
  case (Start sid request cc ec)
  from dist Start(1) have "sid \<notin> set (started evs)" by (simp add: started_append)
  with k have none: "sent_for sid (outbox st) = []" by (rule sent_for_unknown)
  have old: "on_track s (evs @ [e]) st" using o by (rule on_track_mono)
  show ?thesis
    unfolding on_track_def
  proof
    fix f assume "f \<in> set (in_flight st')"
    then consider "f \<in> set (in_flight st)"
      | "f = \<lparr> local_interruptor = next_cond st, session_id = sid, chunk_cont = cc, end_cont = ec,
                store_call = backfiller s request \<rparr>"
      using str by (auto simp: Start(3) op_defs Let_def)
    then show "\<exists>request. Deliver_backfill (session_id f) request (chunk_cont f) (end_cont f) \<in> set (evs @ [e])
        \<and> sent_for (session_id f) (outbox st')
            @ stream (session_id f) (chunk_cont f) (end_cont f) (store_call f)
          = stream (session_id f) (chunk_cont f) (end_cont f) (backfiller s request)"
    proof cases
      case 1
      moreover have "outbox st' = outbox st" by (simp add: Start(3) op_defs Let_def)
      ultimately show ?thesis using old by (simp add: on_track_def)
    next
      case 2
      moreover have "outbox st' = outbox st" by (simp add: Start(3) op_defs Let_def)
      ultimately show ?thesis using none Start(1) by auto
    qed
  qed
next
  case (Cancel sid h)
  with o have "on_track s evs st'" by (simp add: on_track_def)
  then show ?thesis by (rule on_track_mono)
next
  case (Emit h f c r)
  have f: "f \<in> set (in_flight st)" using find_frame [OF Emit(2)] by simp
  have dc: "distinct (map local_interruptor (in_flight st))"
    using inv by (simp add: invariant_def conds_ok_def)
  have ob: "outbox st' = outbox st @ [Chunk_msg (session_id f) (chunk_cont f) c]"
    by (simp add: Emit(5) op_defs)
  have fl: "in_flight st' = map (advance f r) (in_flight st)" by (simp add: Emit(5) op_defs)
  have "on_track s evs st'"
    unfolding on_track_def
  proof
    fix g' assume "g' \<in> set (in_flight st')"
    then obtain g where g: "g \<in> set (in_flight st)" "g' = advance f r g" by (auto simp: fl)
    from o g(1) obtain request where
      rq: "Deliver_backfill (session_id g) request (chunk_cont g) (end_cont g) \<in> set evs"
        "sent_for (session_id g) (outbox st)
            @ stream (session_id g) (chunk_cont g) (end_cont g) (store_call g)
          = stream (session_id g) (chunk_cont g) (end_cont g) (backfiller s request)"
      by (auto simp: on_track_def)
    have "sent_for (session_id g') (outbox st')
            @ stream (session_id g') (chunk_cont g') (end_cont g') (store_call g')
          = stream (session_id g') (chunk_cont g') (end_cont g') (backfiller s request)"
    proof (cases "local_interruptor g = local_interruptor f")
      case True
      then have "g = f" using same_interruptor [OF dc f g(1)] by simp
      with rq(2) show ?thesis
        by (simp add: g(2) advance_def ob sent_for_snoc Emit(4) stream_simps)
    next
      case False
      then have "session_id g \<noteq> session_id f" using other_session [OF d f g(1)] by simp
      with rq(2) False show ?thesis
        by (simp add: g(2) advance_def ob sent_for_snoc)
    qed
    with rq(1) show "\<exists>request. Deliver_backfill (session_id g') request (chunk_cont g') (end_cont g') \<in> set evs
        \<and> sent_for (session_id g') (outbox st')
            @ stream (session_id g') (chunk_cont g') (end_cont g') (store_call g')
          = stream (session_id g') (chunk_cont g') (end_cont g') (backfiller s request)"
      by (auto simp: g(2))
  qed
  then show ?thesis by (rule on_track_mono)
next
  case (Suspend h f r)
  have f: "f \<in> set (in_flight st)" using find_frame [OF Suspend(2)] by simp
  have dc: "distinct (map local_interruptor (in_flight st))"
    using inv by (simp add: invariant_def conds_ok_def)
  have ob: "outbox st' = outbox st" by (simp add: Suspend(5) op_defs)
  have fl: "in_flight st' = map (advance f r) (in_flight st)" by (simp add: Suspend(5) op_defs)
  have same: "stream (session_id f) (chunk_cont f) (end_cont f) r
      = stream (session_id f) (chunk_cont f) (end_cont f) (store_call f)"
    using Suspend(4) by (auto simp: stream_simps)
  have "on_track s evs st'"
    unfolding on_track_def
  proof
    fix g' assume "g' \<in> set (in_flight st')"
    then obtain g where g: "g \<in> set (in_flight st)" "g' = advance f r g" by (auto simp: fl)
    from o g(1) obtain request where
      rq: "Deliver_backfill (session_id g) request (chunk_cont g) (end_cont g) \<in> set evs"
        "sent_for (session_id g) (outbox st)
            @ stream (session_id g) (chunk_cont g) (end_cont g) (store_call g)
          = stream (session_id g) (chunk_cont g) (end_cont g) (backfiller s request)"
      by (auto simp: on_track_def)
    have "sent_for (session_id g') (outbox st')
            @ stream (session_id g') (chunk_cont g') (end_cont g') (store_call g')
          = stream (session_id g') (chunk_cont g') (end_cont g') (backfiller s request)"
    proof (cases "local_interruptor g = local_interruptor f")
      case True
      then have "g = f" using same_interruptor [OF dc f g(1)] by simp
      with rq(2) same show ?thesis
        by (simp add: g(2) advance_def ob)
    next
      case False
      with rq(2) show ?thesis
        by (simp add: g(2) advance_def ob)
    qed
    with rq(1) show "\<exists>request. Deliver_backfill (session_id g') request (chunk_cont g') (end_cont g') \<in> set evs
        \<and> sent_for (session_id g') (outbox st')
            @ stream (session_id g') (chunk_cont g') (end_cont g') (store_call g')
          = stream (session_id g') (chunk_cont g') (end_cont g') (backfiller s request)"
      by (auto simp: g(2))
  qed
  then show ?thesis by (rule on_track_mono)
next
  case (Finish h f t)
  have f: "f \<in> set (in_flight st)" using find_frame [OF Finish(2)] by simp
  have "on_track s evs st'"
    unfolding on_track_def
  proof
    fix g assume "g \<in> set (in_flight st')"
    then have g: "g \<in> set (in_flight st)" "local_interruptor g \<noteq> local_interruptor f"
      by (simp_all add: Finish(5))
    then have "session_id g \<noteq> session_id f" using other_session [OF d f] by simp
    then have "sent_for (session_id g) (outbox st') = sent_for (session_id g) (outbox st)"
      by (simp add: Finish(5) sent_for_snoc)
    with o g(1) show "\<exists>request. Deliver_backfill (session_id g) request (chunk_cont g) (end_cont g) \<in> set evs
        \<and> sent_for (session_id g) (outbox st')
            @ stream (session_id g) (chunk_cont g) (end_cont g) (store_call g)
          = stream (session_id g) (chunk_cont g) (end_cont g) (backfiller s request)"
      by (simp add: on_track_def)
  qed
  then show ?thesis by (rule on_track_mono)
next
  case (Interrupt h f)
  with o have "on_track s evs st'" by (simp add: on_track_def)
  then show ?thesis by (rule on_track_mono)
next
  case Destroy
  with o have "on_track s evs st'" by (simp add: on_track_def begin_destroy_sel)
  then show ?thesis by (rule on_track_mono)
next
  case Drained
  with o have "on_track s evs st'" by (simp add: on_track_def)
  then show ?thesis by (rule on_track_mono)
qed

lemma in_order_step:
  assumes k: "sessions_known (set (started evs)) st"
    and dist: "distinct (started (evs @ [e]))"
    and o: "on_track s evs st"
    and io: "in_order s evs st"
    and stp: "step e st = Inr st'"
  shows "in_order s (evs @ [e]) st'"
  unfolding in_order_def
proof (intro allI impI)
  fix sid request cc ec
  assume x: "Deliver_backfill sid request cc ec \<in> set (evs @ [e])"
  let ?E = "stream sid cc ec (backfiller s request)"
  have de: "distinct (started evs)" using dist by (simp add: started_append)
  have old: "prefix (sent_for sid (outbox st)) ?E"
  proof (cases "Deliver_backfill sid request cc ec \<in> set evs")
    case True
    with io show ?thesis by (simp add: in_order_def)
  next
    case False
    with x have "e = Deliver_backfill sid request cc ec" by simp
    with dist have "sid \<notin> set (started evs)" by (simp add: started_append)
    with k have "sent_for sid (outbox st) = []" by (rule sent_for_unknown)
    then show ?thesis by simp
  qed
  from outbox_step [OF stp] show "prefix (sent_for sid (outbox st')) ?E"
  proof
    assume "outbox st' = outbox st"
    with old show ?thesis by simp
  next
    assume "\<exists>f \<in> set (in_flight st). \<exists>m rest. outbox st' = outbox st @ [m]
          \<and> stream (session_id f) (chunk_cont f) (end_cont f) (store_call f) = m # rest"
    then obtain f m rest where f: "f \<in> set (in_flight st)"
      and ob: "outbox st' = outbox st @ [m]"
      and nx: "stream (session_id f) (chunk_cont f) (end_cont f) (store_call f) = m # rest"
      by blast
    have ms: "msg_session m = session_id f"
      using stream_session [of m "session_id f" "chunk_cont f" "end_cont f" "store_call f"] nx
      by simp
    show ?thesis
    proof (cases "session_id f = sid")
      case False
      with ms ob old show ?thesis by (simp add: sent_for_snoc)
    next
      case True
      from o f obtain rf where
        ev: "Deliver_backfill (session_id f) rf (chunk_cont f) (end_cont f) \<in> set evs"
        and eq: "sent_for (session_id f) (outbox st)
            @ stream (session_id f) (chunk_cont f) (end_cont f) (store_call f)
          = stream (session_id f) (chunk_cont f) (end_cont f) (backfiller s rf)"
        by (auto simp: on_track_def)
      have "sid \<in> set (started evs)" using ev True by (auto dest: started_mem)
      with dist x have xin: "Deliver_backfill sid request cc ec \<in> set evs"
        by (auto simp: started_append)
      from start_unique [OF de xin] ev True
      have same: "request = rf" "cc = chunk_cont f" "ec = end_cont f" by auto
      from eq nx have "?E = sent_for sid (outbox st) @ m # rest"
        using True same by simp
      moreover have "sent_for sid (outbox st') = sent_for sid (outbox st) @ [m]"
        using ms True ob by (simp add: sent_for_snoc)
      ultimately show ?thesis by simp
    qed
  qed
qed

lemma run_snoc:
  "run (evs @ [e]) st = Inr st' \<longleftrightarrow> (\<exists>s1. run evs st = Inr s1 \<and> step e s1 = Inr st')"
  by (cases "run evs st"; cases "step e (projr (run evs st))") (auto simp: run_append)

lemma ordered_run:
  assumes c: "backfiller_t cl bh s sb = Inr b"
    and "distinct (started evs)" "run evs b = Inr st"
  shows "on_track s evs st \<and> in_order s evs st \<and> sessions_known (set (started evs)) st
    \<and> distinct (map session_id (in_flight st))"
  using assms(2,3)
proof (induction evs arbitrary: st rule: rev_induct)
  case Nil
  then have "st = b" by simp
  then show ?case
    using constructed_state(1,2) [OF c]
    by (simp add: on_track_def in_order_def sessions_known_def sent_for_def)
next
  case (snoc e evs)
  from snoc.prems(2) obtain s1 where s1: "run evs b = Inr s1" and stp: "step e s1 = Inr st"
    by (auto simp: run_snoc)
  from snoc.prems(1) have de: "distinct (started evs)" by (simp add: started_append)
  from snoc.IH [OF de s1] have
    o: "on_track s evs s1" and io: "in_order s evs s1"
    and k: "sessions_known (set (started evs)) s1"
    and d: "distinct (map session_id (in_flight s1))"
    by simp_all
  have inv: "invariant s1"
    using invariant_constructed [OF c] s1 by (rule invariant_run)
  have str: "store s1 = s"
    using configuration_run [OF s1] constructed_state(8) [OF c] by simp
  have fr: "starts_fresh e s1" using k snoc.prems(1) by (rule fresh_from_distinct)
  have 1: "on_track s (evs @ [e]) st"
    using inv d k snoc.prems(1) o str stp by (rule on_track_step)
  have 2: "in_order s (evs @ [e]) st"
    using k snoc.prems(1) o io stp by (rule in_order_step)
  have 3: "sessions_known (set (started (evs @ [e]))) st"
    using sessions_known_step [OF k stp] by (simp add: started_append)
  have 4: "distinct (map session_id (in_flight st))"
    using d fr stp by (rule distinct_sessions_step)
  from 1 2 3 4 show ?case by simp
qed

lemma completion_closes_stream:
  assumes p: "prefix p (stream sid cc ec r)" and m: "Completion_msg sid ec t \<in> set p"
  shows "p = map (Chunk_msg sid cc) (chunks r) @ [Completion_msg sid ec t]"
proof -
  let ?cs = "map (Chunk_msg sid cc) (chunks r)"
  let ?tl = "case final_timestamp r of None \<Rightarrow> [] | Some t' \<Rightarrow> [Completion_msg sid ec t']"
  from p have "prefix p ?cs \<or> (\<exists>us. p = ?cs @ us \<and> prefix us ?tl)"
    by (simp add: stream_def prefix_append)
  then show ?thesis
  proof
    assume "prefix p ?cs"
    then have "set p \<subseteq> set ?cs" by (rule set_mono_prefix)
    with m show ?thesis by auto
  next
    assume "\<exists>us. p = ?cs @ us \<and> prefix us ?tl"
    then obtain us where us: "p = ?cs @ us" "prefix us ?tl" by blast
    from m us(1) have "Completion_msg sid ec t \<in> set us" by auto
    with us(2) have "us = [Completion_msg sid ec t]"
      by (cases "final_timestamp r"; cases us) auto
    with us(1) show ?thesis by simp
  qed
qed

lemma interrupted_cong:
  "conds st' (local_interruptor g') = conds st (local_interruptor g)
     \<Longrightarrow> drain_signal st' = drain_signal st \<Longrightarrow> interrupted st' g' = interrupted st g"
  by (simp add: interrupted_def)

lemma silent_step:
  assumes inv: "invariant st"
    and quiet: "completions_for k (outbox st) = []"
    and intr: "\<forall>g \<in> set (in_flight st). session_id g = k \<longrightarrow> interrupted st g"
    and ne: "k \<notin> set (started [e])"
    and stp: "step e st = Inr st'"
  shows "completions_for k (outbox st') = []
    \<and> (\<forall>g \<in> set (in_flight st'). session_id g = k \<longrightarrow> interrupted st' g)"
  using stp
proof (cases rule: step_cases)
  case Stutter
  with quiet intr show ?thesis by simp
next
  case (Start sid request cc ec)
  have fresh: "\<forall>g \<in> set (in_flight st). local_interruptor g \<noteq> next_cond st"
    using inv by (auto simp: invariant_def conds_ok_def)
  from ne Start(1) have "sid \<noteq> k" by simp
  with quiet intr fresh show ?thesis
    unfolding Start(3) by (auto simp: op_defs Let_def interrupted_def)
next
  case (Cancel sid h)
  with quiet intr show ?thesis by (auto simp: interrupted_def)
next
  case (Emit h f c r)
  have f: "f \<in> set (in_flight st)" using find_frame [OF Emit(2)] by simp
  have q: "completions_for k (outbox st') = []"
    using quiet by (simp add: Emit(5) op_defs completions_for_def)
  have "\<forall>g \<in> set (in_flight st'). session_id g = k \<longrightarrow> interrupted st' g"
    using intr by (auto simp: Emit(5) op_defs interrupted_def)
  with q show ?thesis by simp
next
  case (Suspend h f r)
  have q: "completions_for k (outbox st') = []"
    using quiet by (simp add: Suspend(5) op_defs)
  have "\<forall>g \<in> set (in_flight st'). session_id g = k \<longrightarrow> interrupted st' g"
    using intr by (auto simp: Suspend(5) op_defs interrupted_def)
  with q show ?thesis by simp
next
  case (Finish h f t)
  have f: "f \<in> set (in_flight st)" using find_frame [OF Finish(2)] by simp
  with intr Finish(3) have "session_id f \<noteq> k" by auto
  then have q: "completions_for k (outbox st') = []"
    using quiet by (simp add: Finish(5) completions_for_def)
  have "\<forall>g \<in> set (in_flight st'). session_id g = k \<longrightarrow> interrupted st' g"
    using intr by (auto simp: Finish(5) interrupted_def)
  with q show ?thesis by simp
next
  case (Interrupt h f)
  have q: "completions_for k (outbox st') = []"
    using quiet by (simp add: Interrupt(4))
  have "\<forall>g \<in> set (in_flight st'). session_id g = k \<longrightarrow> interrupted st' g"
    using intr by (auto simp: Interrupt(4) interrupted_def)
  with q show ?thesis by simp
next
  case Destroy
  with quiet show ?thesis by (simp add: begin_destroy_sel interrupted_def)
next
  case Drained
  with quiet intr show ?thesis by (simp add: interrupted_def)
qed

lemma silent_run:
  assumes "invariant st" "completions_for k (outbox st) = []"
    "\<forall>g \<in> set (in_flight st). session_id g = k \<longrightarrow> interrupted st g"
    "k \<notin> set (started evs)" "run evs st = Inr st'"
  shows "completions_for k (outbox st') = []"
  using assms
proof (induction evs arbitrary: st)
  case Nil
  then show ?case by simp
next
  case (Cons e evs)
  from Cons.prems(5) obtain s1 where s1: "step e st = Inr s1" and r: "run evs s1 = Inr st'"
    by (cases "step e st") auto
  from Cons.prems(4) have ne: "k \<notin> set (started [e])" "k \<notin> set (started evs)"
    by (simp_all add: started_Cons [of e evs])
  have i1: "invariant s1" using Cons.prems(1) s1 by (rule invariant_step)
  from silent_step [OF Cons.prems(1-3) ne(1) s1]
  have "completions_for k (outbox s1) = []"
    "\<forall>g \<in> set (in_flight s1). session_id g = k \<longrightarrow> interrupted s1 g"
    by simp_all
  from Cons.IH [OF i1 this ne(2) r] show ?case .
qed

lemma count_list_distinct: "distinct xs \<Longrightarrow> count_list xs x \<le> 1"
  by (induction xs) (auto simp: count_list_0_iff)

lemma interrupted_never_completes:
  assumes c: "backfiller_t cl bh s sb = Inr b"
    and dist: "distinct (started (evs1 @ evs2))"
    and r1: "run evs1 b = Inr st1"
    and g: "g \<in> set (in_flight st1)" "interrupted st1 g"
    and r2: "run evs2 st1 = Inr st2"
  shows "completions_for (session_id g) (outbox st2) = []"
proof -
  let ?k = "session_id g"
  from dist have d1: "distinct (started evs1)" by (simp add: started_append)
  from ordered_run [OF c d1 r1] have
    k: "sessions_known (set (started evs1)) st1" and d: "distinct (map session_id (in_flight st1))"
    by simp_all
  from k g(1) have "?k \<in> set (started evs1)" by (simp add: sessions_known_def)
  with dist have ne: "?k \<notin> set (started evs2)" by (auto simp: started_append)
  have inv: "invariant st1" using invariant_constructed [OF c] r1 by (rule invariant_run)
  have "length (completions_for ?k (outbox st1)) + length (handlers_of ?k st1)
      \<le> count_list (started evs1) ?k"
    using completions_run [OF r1, of ?k] constructed_state(1,2) [OF c]
    by (simp add: completions_for_def handlers_of_def)
  moreover have "count_list (started evs1) ?k \<le> 1" using d1 by (rule count_list_distinct)
  moreover have "g \<in> set (handlers_of ?k st1)" using g(1) by (simp add: handlers_of_def)
  then have "0 < length (handlers_of ?k st1)" by (rule length_pos_if_in_set)
  ultimately have "length (completions_for ?k (outbox st1)) = 0" by linarith
  then have quiet: "completions_for ?k (outbox st1) = []" by simp
  have "\<forall>g' \<in> set (in_flight st1). session_id g' = ?k \<longrightarrow> interrupted st1 g'"
  proof (intro ballI impI)
    fix g' assume "g' \<in> set (in_flight st1)" "session_id g' = ?k"
    with d g(1) have "g' = g" by (metis distinct_map inj_onD)
    with g(2) show "interrupted st1 g'" by simp
  qed
  with inv quiet show ?thesis using ne r2 by (rule silent_run)
qed

lemma example_constructed:
  "backfiller_t \<lparr> next_mailbox = 100 \<rparr> example_history example_store 0 = Inr example_backfiller"
  by (simp add: backfiller_t_def rassert_def Let_def example_backfiller_def example_store_def
      example_history_def branch_find_def)

lemma alive_unless_interrupted:
  assumes "backfiller_t c bh s sb = Inr b" "run evs b = Inr st" "\<not> interrupted st f"
  shows "\<not> registry_destroyed st"
proof -
  have "invariant st"
    using invariant_constructed [OF assms(1)] assms(2) by (rule invariant_run)
  then have "registry_destroyed st \<longrightarrow> drain_signal st" by (auto simp: invariant_def locks_ok_def)
  with assms(3) show ?thesis by (auto simp: interrupted_def)
qed

lemma example_returning_run:
  "\<not> isl (run example_returning example_backfiller)"
  "outbox (projr (run example_returning example_backfiller)) = [Chunk_msg 5 20 7, Chunk_msg 5 20 8]"
  "find (\<lambda>g. local_interruptor g = 0) (in_flight (projr (run example_returning example_backfiller)))
     = Some \<lparr> local_interruptor = 0, session_id = 5, chunk_cont = 20, end_cont = 21,
               store_call = Return 9 \<rparr>"
  "\<not> interrupted (projr (run example_returning example_backfiller))
       \<lparr> local_interruptor = 0, session_id = 5, chunk_cont = 20, end_cont = 21,
         store_call = Return 9 \<rparr>"
  by (simp_all add: example_returning_def example_defs op_defs eval_defs Let_def)

lemma example_destroyed_sel:
  "in_flight (begin_destroy example_running) = [example_frame]"
  "local_interruptors (begin_destroy example_running) 3 = None"
  "conds (begin_destroy example_running) 0 = Some False"
  "outbox (begin_destroy example_running) = []"
  "drain_signal (begin_destroy example_running)"
  "registry_destroyed (begin_destroy example_running)"
  "advertisement (begin_destroy example_running) = None"
  "\<not> destroyed (begin_destroy example_running)"
  "drainer_locks (begin_destroy example_running) = 1"
  "teardown (begin_destroy example_running)
     = [Advertisement, Cancel_backfill_mailbox, Backfill_mailbox, Local_interruptors, Drainer]"
  "interrupted (begin_destroy example_running) example_frame"
  "find (\<lambda>g. local_interruptor g = 0) (in_flight (begin_destroy example_running))
     = Some example_frame"
  by (simp_all add: begin_destroy_sel example_running_sel interrupted_def example_frame_def)

lemma example_destroyed_run:
  "run [Deliver_backfill 3 1 20 21, Begin_destroy] example_backfiller
     = Inr (begin_destroy example_running)"
  by (simp only: run_step [OF example_running_step] run_step [OF example_destroy_step] run.simps(1))

lemma example_destroyed_resume:
  "step (Resume 0) (begin_destroy example_running) = Inl Use_after_destruction"
  using step_resume_after_destruction [OF example_destroyed_sel(12) example_destroyed_sel(11)
      example_destroyed_sel(6)] .

lemma example_cancelled_resume:
  "step (Resume 0) example_cancelled = Inr (lock_release (scope_exit example_frame example_cancelled))"
  "outbox (lock_release (scope_exit example_frame example_cancelled)) = []"
  "in_flight (lock_release (scope_exit example_frame example_cancelled)) = []"
  "local_interruptors (lock_release (scope_exit example_frame example_cancelled)) 3 = None"
proof -
  have i: "interrupted example_cancelled example_frame"
    by (simp add: interrupted_def example_cancelled_sel example_frame_def)
  have a: "\<not> registry_destroyed example_cancelled"
    by (simp add: example_defs op_defs Let_def)
  show "step (Resume 0) example_cancelled = Inr (lock_release (scope_exit example_frame example_cancelled))"
    using example_find(2) i a by (rule step_resume_interrupted)
  show "outbox (lock_release (scope_exit example_frame example_cancelled)) = []"
    "in_flight (lock_release (scope_exit example_frame example_cancelled)) = []"
    "local_interruptors (lock_release (scope_exit example_frame example_cancelled)) 3 = None"
    by (simp_all add: example_cancelled_sel example_frame_def sentry_erase_def)
qed

section \<open>The claims\<close>

text \<open>
  C1. In every state a constructed backfiller reaches, the completion messages sent for a
  session id are at most as many as the start-backfill messages delivered with that id:
  every start-backfill session accounts for at most one completion message, and a session
  id started once has at most one. When the call of the store returns a timestamp, the
  handler sends exactly one message, the completion carrying that timestamp to the end
  address of the session, and returns. This holds in every state in which the map
  \<open>local_interruptors\<close> has not been destroyed, and so in every state the backfiller
  reaches, since there a handler that is not interrupted finds the map alive.
\<close>

theorem at_most_one_completion:
  "(backfiller_t c bh s sb = Inr b \<and> run evs b = Inr st \<longrightarrow>
      length (completions_for sid (outbox st)) \<le> count_list (started evs) sid
      \<and> (count_list (started evs) sid \<le> 1 \<longrightarrow> length (completions_for sid (outbox st)) \<le> 1))
   \<and> (\<not> registry_destroyed st0 \<longrightarrow>
        (\<exists>st1. on_backfill_exit f (Returned t) st0 = Handler_returned st1
           \<and> outbox st1 = outbox st0 @ [Completion_msg (session_id f) (end_cont f) t]))
   \<and> (find (\<lambda>g. local_interruptor g = h) (in_flight st0) = Some f \<and> \<not> interrupted st0 f
        \<and> store_call f = Return t \<and> \<not> registry_destroyed st0 \<longrightarrow>
        (\<exists>st1. step (Resume h) st0 = Inr st1
           \<and> outbox st1 = outbox st0 @ [Completion_msg (session_id f) (end_cont f) t]))
   \<and> (backfiller_t c bh s sb = Inr b \<and> run evs b = Inr st
        \<and> find (\<lambda>g. local_interruptor g = h) (in_flight st) = Some f \<and> \<not> interrupted st f
        \<and> store_call f = Return t \<longrightarrow>
        (\<exists>st1. step (Resume h) st = Inr st1
           \<and> outbox st1 = outbox st @ [Completion_msg (session_id f) (end_cont f) t]))"
proof -
  have A: "backfiller_t c bh s sb = Inr b \<and> run evs b = Inr st \<longrightarrow>
      length (completions_for sid (outbox st)) \<le> count_list (started evs) sid"
  proof
    assume a: "backfiller_t c bh s sb = Inr b \<and> run evs b = Inr st"
    then have "outbox b = []" "in_flight b = []" using constructed_state(1,2) by blast+
    with completions_run [of evs b st sid] a
    show "length (completions_for sid (outbox st)) \<le> count_list (started evs) sid"
      by (simp add: completions_for_def handlers_of_def)
  qed
  have B: "\<not> registry_destroyed st0 \<longrightarrow>
        (\<exists>st1. on_backfill_exit f (Returned t) st0 = Handler_returned st1
           \<and> outbox st1 = outbox st0 @ [Completion_msg (session_id f) (end_cont f) t])"
    using exit_returned(1) [of st0 f t] exit_returned(2) [of f t st0] by simp
  have C: "find (\<lambda>g. local_interruptor g = h) (in_flight st0) = Some f \<and> \<not> interrupted st0 f
        \<and> store_call f = Return t \<and> \<not> registry_destroyed st0 \<longrightarrow>
        (\<exists>st1. step (Resume h) st0 = Inr st1
           \<and> outbox st1 = outbox st0 @ [Completion_msg (session_id f) (end_cont f) t])"
    using step_resume_return [of h st0 f t] by simp
  have D: "backfiller_t c bh s sb = Inr b \<and> run evs b = Inr st
        \<and> find (\<lambda>g. local_interruptor g = h) (in_flight st) = Some f \<and> \<not> interrupted st f
        \<and> store_call f = Return t \<longrightarrow>
        (\<exists>st1. step (Resume h) st = Inr st1
           \<and> outbox st1 = outbox st @ [Completion_msg (session_id f) (end_cont f) t])"
  proof
    assume a: "backfiller_t c bh s sb = Inr b \<and> run evs b = Inr st
        \<and> find (\<lambda>g. local_interruptor g = h) (in_flight st) = Some f \<and> \<not> interrupted st f
        \<and> store_call f = Return t"
    then have "\<not> registry_destroyed st" using alive_unless_interrupted [of c bh s sb b evs st f] by blast
    with a show "\<exists>st1. step (Resume h) st = Inr st1
           \<and> outbox st1 = outbox st @ [Completion_msg (session_id f) (end_cont f) t]"
      using step_resume_return [of h st f t] by simp
  qed
  from A have A': "backfiller_t c bh s sb = Inr b \<and> run evs b = Inr st \<longrightarrow>
      length (completions_for sid (outbox st)) \<le> count_list (started evs) sid
      \<and> (count_list (started evs) sid \<le> 1 \<longrightarrow> length (completions_for sid (outbox st)) \<le> 1)"
    by auto
  from A' B C D show ?thesis by blast
qed

theorem at_most_one_completion_witness:
  "backfiller_t \<lparr> next_mailbox = 100 \<rparr> example_history example_store 0 = Inr example_backfiller
   \<and> run example_schedule example_backfiller = Inr (projr (run example_schedule example_backfiller))
   \<and> count_list (started example_schedule) 5 \<le> 1
   \<and> length (completions_for 5 (outbox (projr (run example_schedule example_backfiller)))) \<le> 1
   \<and> completions_for 5 (outbox (projr (run example_schedule example_backfiller)))
       = [Completion_msg 5 21 9]
   \<and> find (\<lambda>g. local_interruptor g = 0)
        (in_flight (example_running\<lparr> in_flight := [example_frame\<lparr> store_call := Return 9 \<rparr>] \<rparr>))
       = Some (example_frame\<lparr> store_call := Return 9 \<rparr>)
   \<and> \<not> registry_destroyed (example_running\<lparr> in_flight := [example_frame\<lparr> store_call := Return 9 \<rparr>] \<rparr>)
   \<and> outbox (projr (step (Resume 0)
        (example_running\<lparr> in_flight := [example_frame\<lparr> store_call := Return 9 \<rparr>] \<rparr>)))
       = [Completion_msg 3 21 9]
   \<and> run example_returning example_backfiller = Inr (projr (run example_returning example_backfiller))
   \<and> outbox (projr (run example_returning example_backfiller)) = [Chunk_msg 5 20 7, Chunk_msg 5 20 8]
   \<and> outbox (projr (step (Resume 0) (projr (run example_returning example_backfiller))))
       = [Chunk_msg 5 20 7, Chunk_msg 5 20 8, Completion_msg 5 21 9]"
proof -
  let ?st = "example_running\<lparr> in_flight := [example_frame\<lparr> store_call := Return 9 \<rparr>] \<rparr>"
  let ?f = "example_frame\<lparr> store_call := Return 9 \<rparr>"
  let ?mid = "projr (run example_returning example_backfiller)"
  let ?g = "\<lparr> local_interruptor = 0, session_id = 5, chunk_cont = 20, end_cont = 21,
             store_call = Return 9 \<rparr>"
  note t = at_most_one_completion
    [where c = "\<lparr> next_mailbox = 100 \<rparr>" and bh = example_history and s = example_store
      and sb = 0 and b = example_backfiller]
  note t1 = t [where evs = example_schedule
      and st = "projr (run example_schedule example_backfiller)" and sid = 5 and f = ?f
      and t = 9 and ?st0.0 = ?st and h = 0]
  note t2 = t [where evs = example_returning and st = ?mid and sid = 5 and f = ?g
      and t = 9 and ?st0.0 = ?st and h = 0]
  have r: "run example_schedule example_backfiller = Inr (projr (run example_schedule example_backfiller))"
    using example_schedule_run(1) by (rule Inr_projr)
  have c: "count_list (started example_schedule) 5 \<le> 1" by (simp add: example_schedule_def)
  have f: "find (\<lambda>g. local_interruptor g = 0) (in_flight ?st) = Some ?f"
    by (simp add: example_frame_def)
  have i: "\<not> interrupted ?st ?f"
    by (simp add: interrupted_def example_running_sel example_frame_def)
  have a: "\<not> registry_destroyed ?st"
    by (simp add: example_defs op_defs Let_def)
  have 1: "length (completions_for 5 (outbox (projr (run example_schedule example_backfiller)))) \<le> 1"
    using t1 example_constructed r c by blast
  from t1 f i a obtain st1 where "step (Resume 0) ?st = Inr st1"
    "outbox st1 = outbox ?st @ [Completion_msg (session_id ?f) (end_cont ?f) 9]"
    by auto
  then have 2: "outbox (projr (step (Resume 0) ?st)) = [Completion_msg 3 21 9]"
    by (simp add: example_running_sel example_frame_def)
  have 3: "completions_for 5 (outbox (projr (run example_schedule example_backfiller)))
       = [Completion_msg 5 21 9]"
    by (simp add: example_schedule_run(2) completions_for_def)
  have rm: "run example_returning example_backfiller = Inr ?mid"
    using example_returning_run(1) by (rule Inr_projr)
  from t2 example_constructed rm example_returning_run(3,4) obtain st2 where
    "step (Resume 0) ?mid = Inr st2"
    "outbox st2 = outbox ?mid @ [Completion_msg (session_id ?g) (end_cont ?g) 9]"
    by auto
  then have 4: "outbox (projr (step (Resume 0) ?mid))
       = [Chunk_msg 5 20 7, Chunk_msg 5 20 8, Completion_msg 5 21 9]"
    by (simp add: example_returning_run(2))
  from example_constructed r c 1 2 3 f a rm example_returning_run(2) 4 show ?thesis by blast
qed

text \<open>
  C2 holds on the path of a cancel and fails in the code on the path of a shutdown. The
  member \<open>local_interruptors\<close> is declared after \<open>drainer\<close>, so the map is destroyed
  before the destructor of the drainer pulses the drain signal. A handler that the drain
  signal interrupts does what the claim says up to its last step: the store's call ends
  with the interruption, \<open>on_backfill\<close> catches it and sends nothing; but on leaving its
  scope the sentry erases from the destroyed map. Here session 3 runs while the
  backfiller is destroyed, and is resumed: the exit is undefined behaviour. After a
  cancel, the same handler leaves without a message and without an error.
\<close>

theorem shutdown_interrupt_exit_uses_destroyed_registry:
  "run [Deliver_backfill 3 1 20 21, Begin_destroy] example_backfiller
     = Inr (begin_destroy example_running)
   \<and> in_flight (begin_destroy example_running) = [example_frame]
   \<and> conds (begin_destroy example_running) 0 = Some False
   \<and> drain_signal (begin_destroy example_running)
   \<and> interrupted (begin_destroy example_running) example_frame
   \<and> store_step (interrupted (begin_destroy example_running) example_frame) (store_call example_frame)
       = Finished (Threw interrupted_exc_t)
   \<and> registry_destroyed (begin_destroy example_running)
   \<and> on_backfill_exit example_frame (Threw interrupted_exc_t) (begin_destroy example_running)
       = Handler_crashed Use_after_destruction
   \<and> outbox (begin_destroy example_running) = []
   \<and> run [Deliver_backfill 3 1 20 21, Begin_destroy, Resume 0] example_backfiller
       = Inl Use_after_destruction
   \<and> run [Deliver_backfill 3 1 20 21, Deliver_cancel 3, Resume 0] example_backfiller
       = Inr (lock_release (scope_exit example_frame example_cancelled))
   \<and> outbox (lock_release (scope_exit example_frame example_cancelled)) = []
   \<and> in_flight (lock_release (scope_exit example_frame example_cancelled)) = []"
proof -
  have x: "on_backfill_exit example_frame (Threw interrupted_exc_t) (begin_destroy example_running)
       = Handler_crashed Use_after_destruction"
    by (simp add: on_backfill_exit_def rassert_def leave_scope_def example_destroyed_sel)
  have s: "store_step (interrupted (begin_destroy example_running) example_frame)
      (store_call example_frame) = Finished (Threw interrupted_exc_t)"
    by (simp add: example_destroyed_sel)
  have r: "run [Deliver_backfill 3 1 20 21, Begin_destroy, Resume 0] example_backfiller
       = Inl Use_after_destruction"
    by (simp only: run_step [OF example_running_step] run_step [OF example_destroy_step]
        run_step_error [OF example_destroyed_resume])
  have c: "run [Deliver_backfill 3 1 20 21, Deliver_cancel 3, Resume 0] example_backfiller
       = Inr (lock_release (scope_exit example_frame example_cancelled))"
    by (simp only: run_step [OF example_running_step] run_step [OF example_cancelled_step]
        run_step [OF example_cancelled_resume(1)] run.simps(1))
  from example_destroyed_run example_destroyed_sel(1,3,5,11,6,4) s x r c
    example_cancelled_resume(2,3)
  show ?thesis by simp
qed

text \<open>
  C3. \<open>send_fun\<close> sends the chunk it is given, as it is, to the chunk address of the
  session, and a resumption in which the store produces a chunk adds exactly that message
  to the outbox. Over a whole schedule whose start-backfill messages carry distinct
  session ids, the messages sent for a session are at every moment a prefix of its
  stream: the chunks of the store's call in the order the store produces them, each to
  the chunk address, followed by the completion. So a completion message, when there is
  one, comes after the message of every chunk.
\<close>

theorem chunks_forwarded_in_order:
  "outbox (send_fun f c st0) = outbox st0 @ [Chunk_msg (session_id f) (chunk_cont f) c]
   \<and> (find (\<lambda>g. local_interruptor g = h) (in_flight st0) = Some f \<and> \<not> interrupted st0 f
        \<and> store_call f = Produce c r \<longrightarrow>
        (\<exists>st1. step (Resume h) st0 = Inr st1
           \<and> outbox st1 = outbox st0 @ [Chunk_msg (session_id f) (chunk_cont f) c]))
   \<and> (backfiller_t cl bh s sb = Inr b \<and> distinct (started evs) \<and> run evs b = Inr st
        \<and> Deliver_backfill sid request cc ec \<in> set evs \<longrightarrow>
        prefix (sent_for sid (outbox st)) (stream sid cc ec (backfiller s request))
        \<and> (\<forall>t. Completion_msg sid ec t \<in> set (outbox st) \<longrightarrow>
             sent_for sid (outbox st)
               = map (Chunk_msg sid cc) (chunks (backfiller s request)) @ [Completion_msg sid ec t]))"
proof -
  have A: "outbox (send_fun f c st0) = outbox st0 @ [Chunk_msg (session_id f) (chunk_cont f) c]"
    by (simp add: op_defs)
  have B: "find (\<lambda>g. local_interruptor g = h) (in_flight st0) = Some f \<and> \<not> interrupted st0 f
        \<and> store_call f = Produce c r \<longrightarrow>
        (\<exists>st1. step (Resume h) st0 = Inr st1
           \<and> outbox st1 = outbox st0 @ [Chunk_msg (session_id f) (chunk_cont f) c])"
    using step_resume_emit [of h st0 f c r] by (simp add: op_defs)
  have C: "backfiller_t cl bh s sb = Inr b \<and> distinct (started evs) \<and> run evs b = Inr st
        \<and> Deliver_backfill sid request cc ec \<in> set evs \<longrightarrow>
        prefix (sent_for sid (outbox st)) (stream sid cc ec (backfiller s request))
        \<and> (\<forall>t. Completion_msg sid ec t \<in> set (outbox st) \<longrightarrow>
             sent_for sid (outbox st)
               = map (Chunk_msg sid cc) (chunks (backfiller s request)) @ [Completion_msg sid ec t])"
  proof (intro impI)
    assume a: "backfiller_t cl bh s sb = Inr b \<and> distinct (started evs) \<and> run evs b = Inr st
        \<and> Deliver_backfill sid request cc ec \<in> set evs"
    then have "in_order s evs st" using ordered_run [of cl bh s sb b evs st] by blast
    with a have p: "prefix (sent_for sid (outbox st)) (stream sid cc ec (backfiller s request))"
      by (simp add: in_order_def)
    have "sent_for sid (outbox st)
               = map (Chunk_msg sid cc) (chunks (backfiller s request)) @ [Completion_msg sid ec t]"
      if "Completion_msg sid ec t \<in> set (outbox st)" for t
    proof -
      from that have "Completion_msg sid ec t \<in> set (sent_for sid (outbox st))"
        by (simp add: sent_for_def)
      with p show ?thesis by (rule completion_closes_stream)
    qed
    with p show "prefix (sent_for sid (outbox st)) (stream sid cc ec (backfiller s request))
        \<and> (\<forall>t. Completion_msg sid ec t \<in> set (outbox st) \<longrightarrow>
             sent_for sid (outbox st)
               = map (Chunk_msg sid cc) (chunks (backfiller s request)) @ [Completion_msg sid ec t])"
      by blast
  qed
  from A B C show ?thesis by blast
qed

theorem chunks_forwarded_in_order_witness:
  "backfiller_t \<lparr> next_mailbox = 100 \<rparr> example_history example_store 0 = Inr example_backfiller
   \<and> distinct (started example_schedule)
   \<and> run example_schedule example_backfiller = Inr (projr (run example_schedule example_backfiller))
   \<and> Deliver_backfill 5 0 20 21 \<in> set example_schedule
   \<and> chunks (backfiller example_store 0) = [7, 8]
   \<and> Completion_msg 5 21 9 \<in> set (outbox (projr (run example_schedule example_backfiller)))
   \<and> sent_for 5 (outbox (projr (run example_schedule example_backfiller)))
       = [Chunk_msg 5 20 7, Chunk_msg 5 20 8, Completion_msg 5 21 9]
   \<and> find (\<lambda>g. local_interruptor g = 0)
        (in_flight (example_running\<lparr> in_flight := [example_frame\<lparr> store_call := Produce 7 Block \<rparr>] \<rparr>))
       = Some (example_frame\<lparr> store_call := Produce 7 Block \<rparr>)
   \<and> outbox (projr (step (Resume 0)
        (example_running\<lparr> in_flight := [example_frame\<lparr> store_call := Produce 7 Block \<rparr>] \<rparr>)))
       = [Chunk_msg 3 20 7]"
proof -
  let ?st = "example_running\<lparr> in_flight := [example_frame\<lparr> store_call := Produce 7 Block \<rparr>] \<rparr>"
  let ?f = "example_frame\<lparr> store_call := Produce 7 Block \<rparr>"
  let ?end = "projr (run example_schedule example_backfiller)"
  note t = chunks_forwarded_in_order
    [of ?f 7 ?st 0 Block "\<lparr> next_mailbox = 100 \<rparr>" example_history example_store 0
      example_backfiller example_schedule ?end 5 0 20 21]
  have r: "run example_schedule example_backfiller = Inr ?end"
    using example_schedule_run(1) by (rule Inr_projr)
  have d: "distinct (started example_schedule)" by (simp add: example_schedule_def)
  have e: "Deliver_backfill 5 0 20 21 \<in> set example_schedule" by (simp add: example_schedule_def)
  have m: "Completion_msg 5 21 9 \<in> set (outbox ?end)" by (simp add: example_schedule_run(2))
  have cs: "chunks (backfiller example_store 0) = [7, 8]" by (simp add: example_store_def)
  from t example_constructed d r e m
  have "sent_for 5 (outbox ?end)
      = map (Chunk_msg 5 20) (chunks (backfiller example_store 0)) @ [Completion_msg 5 21 9]"
    by blast
  then have 1: "sent_for 5 (outbox ?end) = [Chunk_msg 5 20 7, Chunk_msg 5 20 8, Completion_msg 5 21 9]"
    by (simp add: cs)
  have f: "find (\<lambda>g. local_interruptor g = 0) (in_flight ?st) = Some ?f"
    by (simp add: example_frame_def)
  have i: "\<not> interrupted ?st ?f"
    by (simp add: interrupted_def example_running_sel example_frame_def)
  from t f i obtain st1 where "step (Resume 0) ?st = Inr st1"
    "outbox st1 = outbox ?st @ [Chunk_msg (session_id ?f) (chunk_cont ?f) 7]"
    by auto
  then have 2: "outbox (projr (step (Resume 0) ?st)) = [Chunk_msg 3 20 7]"
    by (simp add: example_running_sel example_frame_def)
  from example_constructed d r e cs m 1 f 2 show ?thesis by blast
qed

text \<open>
  C4 holds while the backfiller lives and fails in the code when it is destroyed with a
  handler running. Entering \<open>on_backfill\<close> registers session 3, and after a cancel the
  exit of its handler takes the entry out again. But \<open>local_interruptors\<close> is declared
  after \<open>drainer\<close>: the destructor of \<open>backfiller_t\<close> destroys the map before the drainer
  waits for the handlers. From then on the handler of session 3 is still running and its
  session id is no longer in any registry, and when the handler returns, the sentry
  erases from the destroyed map: undefined behaviour instead of a removed entry.
\<close>

theorem registry_destroyed_under_running_handler:
  "local_interruptors example_running 3 = Some 0
   \<and> in_flight example_running = [example_frame]
   \<and> session_id example_frame = 3 \<and> local_interruptor example_frame = 0
   \<and> step Begin_destroy example_running = Inr (begin_destroy example_running)
   \<and> teardown (begin_destroy example_running)
       = [Advertisement, Cancel_backfill_mailbox, Backfill_mailbox, Local_interruptors, Drainer]
   \<and> in_flight (begin_destroy example_running) = [example_frame]
   \<and> registry_destroyed (begin_destroy example_running)
   \<and> local_interruptors (begin_destroy example_running) 3 = None
   \<and> leave_scope example_frame (begin_destroy example_running) = Inl Use_after_destruction
   \<and> step (Resume 0) (begin_destroy example_running) = Inl Use_after_destruction
   \<and> step (Resume 0) example_cancelled
       = Inr (lock_release (scope_exit example_frame example_cancelled))
   \<and> local_interruptors (lock_release (scope_exit example_frame example_cancelled)) 3 = None"
proof -
  have l: "leave_scope example_frame (begin_destroy example_running) = Inl Use_after_destruction"
    by (simp add: leave_scope_def example_destroyed_sel)
  from example_running_sel(1,2) example_destroy_step example_destroyed_sel(10,1,6,2) l
    example_destroyed_resume example_cancelled_resume(1,4)
  show ?thesis by (simp add: example_frame_def)
qed

text \<open>
  C5. The constructor fails with an assertion failure exactly when the region of the store
  differs from the region of the branch found under the store's branch id, or the
  timestamp of the store is before the initial timestamp of that branch. So a backfiller
  is constructed exactly when both conditions hold, and they hold of its store, branch
  history and branch id in every state it reaches afterwards.
\<close>

theorem constructor_checks_store_against_branch:
  "(backfiller_t c bh s sb = Inl Assertion_failed \<longleftrightarrow>
      \<not> (get_region s = region (branch_find bh sb)
         \<and> initial_timestamp (branch_find bh sb) \<le> get_timestamp s))
   \<and> ((\<exists>b. backfiller_t c bh s sb = Inr b) \<longleftrightarrow>
      (get_region s = region (branch_find bh sb)
         \<and> initial_timestamp (branch_find bh sb) \<le> get_timestamp s))
   \<and> (\<forall>b evs st. backfiller_t c bh s sb = Inr b \<and> run evs b = Inr st \<longrightarrow>
        store st = s \<and> branch_history st = bh \<and> store_branch st = sb
        \<and> get_region (store st) = region (branch_find (branch_history st) (store_branch st))
        \<and> initial_timestamp (branch_find (branch_history st) (store_branch st))
             \<le> get_timestamp (store st))"
proof (intro conjI allI impI)
  show "backfiller_t c bh s sb = Inl Assertion_failed \<longleftrightarrow>
      \<not> (get_region s = region (branch_find bh sb)
         \<and> initial_timestamp (branch_find bh sb) \<le> get_timestamp s)"
    by (simp add: backfiller_t_def rassert_def Let_def)
  show ok: "(\<exists>b. backfiller_t c bh s sb = Inr b) \<longleftrightarrow>
      (get_region s = region (branch_find bh sb)
         \<and> initial_timestamp (branch_find bh sb) \<le> get_timestamp s)"
    by (simp add: backfiller_t_def rassert_def Let_def)
  fix b evs st
  assume a: "backfiller_t c bh s sb = Inr b \<and> run evs b = Inr st"
  then have cfg: "store st = s" "branch_history st = bh" "store_branch st = sb"
    using constructed_state(8-10) [of c bh s sb b] configuration_run [of evs b st] by simp_all
  from a ok have chk: "get_region s = region (branch_find bh sb)"
    "initial_timestamp (branch_find bh sb) \<le> get_timestamp s" by blast+
  show "store st = s" "branch_history st = bh" "store_branch st = sb" by (fact cfg)+
  show "get_region (store st) = region (branch_find (branch_history st) (store_branch st))"
    using cfg chk by simp
  show "initial_timestamp (branch_find (branch_history st) (store_branch st)) \<le> get_timestamp (store st)"
    using cfg chk by simp
qed

theorem constructor_checks_store_against_branch_witness:
  "backfiller_t \<lparr> next_mailbox = 100 \<rparr> example_history example_store 0 = Inr example_backfiller
   \<and> get_region (store example_backfiller)
       = region (branch_find (branch_history example_backfiller) (store_branch example_backfiller))
   \<and> initial_timestamp (branch_find (branch_history example_backfiller) (store_branch example_backfiller))
       \<le> get_timestamp (store example_backfiller)
   \<and> backfiller_t \<lparr> next_mailbox = 100 \<rparr> example_history (example_store\<lparr> get_timestamp := 4 \<rparr>) 0
       = Inl Assertion_failed"
proof -
  have r: "run [] example_backfiller = Inr example_backfiller" by simp
  have 1: "get_region (store example_backfiller)
       = region (branch_find (branch_history example_backfiller) (store_branch example_backfiller))
     \<and> initial_timestamp (branch_find (branch_history example_backfiller) (store_branch example_backfiller))
       \<le> get_timestamp (store example_backfiller)"
    using constructor_checks_store_against_branch
      [of "\<lparr> next_mailbox = 100 \<rparr>" example_history example_store 0] example_constructed r
    by blast
  have "\<not> (get_region (example_store\<lparr> get_timestamp := 4 \<rparr>) = region (branch_find example_history 0)
         \<and> initial_timestamp (branch_find example_history 0)
              \<le> get_timestamp (example_store\<lparr> get_timestamp := 4 \<rparr>))"
    by (simp add: example_history_def branch_find_def)
  then have 2: "backfiller_t \<lparr> next_mailbox = 100 \<rparr> example_history (example_store\<lparr> get_timestamp := 4 \<rparr>) 0
       = Inl Assertion_failed"
    using constructor_checks_store_against_branch
      [of "\<lparr> next_mailbox = 100 \<rparr>" example_history "example_store\<lparr> get_timestamp := 4 \<rparr>" 0]
    by blast
  from example_constructed 1 2 show ?thesis by blast
qed

text \<open>
  C6, as the specification states it, fails in its last part: the advertisement is the
  member declared last, so it is destroyed first. While the backfiller handles session 3
  and is destroyed, the advertisement is withdrawn before the drain signal is pulsed, and
  it is gone while the handler is still running and the destructor of the drainer cannot
  return yet.
\<close>

theorem advertisement_withdrawn_before_drain_counterexample:
  "run [Deliver_backfill 3 1 20 21, Begin_destroy] example_backfiller
     = Inr (begin_destroy example_running)
   \<and> advertisement (destroy Advertisement example_running) = None
   \<and> \<not> drain_signal (destroy Advertisement example_running)
   \<and> teardown (begin_destroy example_running)
       = [Advertisement, Cancel_backfill_mailbox, Backfill_mailbox, Local_interruptors, Drainer]
   \<and> advertisement (begin_destroy example_running) = None
   \<and> in_flight (begin_destroy example_running) = [example_frame]
   \<and> \<not> destroyed (begin_destroy example_running)
   \<and> step Finish_destroy (begin_destroy example_running) = Inr (begin_destroy example_running)"
proof -
  have "drainer_finish (begin_destroy example_running) = begin_destroy example_running"
    by (simp add: drainer_finish_def example_destroyed_sel)
  with example_destroyed_run example_destroyed_sel(10,7,1,8) show ?thesis
    by (simp add: example_running_sel)
qed

text \<open>
  C6, amended. Destruction runs the destructors of the members in the reverse order of
  their declaration: it withdraws the advertisement first, when the mailboxes are still
  open and the drain signal is not pulsed, then closes the two mailboxes, and pulses the
  shared drain signal last. The drain signal is one of the two signals of every running
  handler's combined interrupt, so every running handler is then interrupted, and none
  is dropped. The destructor of the drainer blocks while a handler is running: in no
  state that the backfiller reaches is a handler running after the destruction has
  completed, and in every state it reaches in which the drain signal is pulsed the
  advertisement and the mailboxes are gone.
\<close>

theorem destruction_withdraws_then_signals:
  "(\<not> drain_signal st \<longrightarrow>
      step Begin_destroy st = Inr (begin_destroy st)
      \<and> begin_destroy st
          = destroy Drainer (destroy Local_interruptors (destroy Backfill_mailbox
              (destroy Cancel_backfill_mailbox (destroy Advertisement st))))
      \<and> teardown (begin_destroy st) = teardown st
          @ [Advertisement, Cancel_backfill_mailbox, Backfill_mailbox, Local_interruptors, Drainer]
      \<and> advertisement (destroy Advertisement st) = None
      \<and> backfill_mailbox (destroy Advertisement st) = backfill_mailbox st
      \<and> cancel_backfill_mailbox (destroy Advertisement st) = cancel_backfill_mailbox st
      \<and> \<not> drain_signal (destroy Advertisement st)
      \<and> \<not> drain_signal (destroy Backfill_mailbox (destroy Cancel_backfill_mailbox
              (destroy Advertisement st)))
      \<and> backfill_mailbox (destroy Backfill_mailbox (destroy Cancel_backfill_mailbox
              (destroy Advertisement st))) = None
      \<and> cancel_backfill_mailbox (destroy Backfill_mailbox (destroy Cancel_backfill_mailbox
              (destroy Advertisement st))) = None
      \<and> drain_signal (begin_destroy st)
      \<and> in_flight (begin_destroy st) = in_flight st
      \<and> (\<forall>f \<in> set (in_flight st). interrupted (begin_destroy st) f))
   \<and> (backfiller_t c bh s sb = Inr b \<and> run evs b = Inr st' \<longrightarrow>
        (drain_signal st' \<longrightarrow> advertisement st' = None \<and> backfill_mailbox st' = None
           \<and> cancel_backfill_mailbox st' = None)
        \<and> (destroyed st' \<longrightarrow> in_flight st' = [] \<and> drain_signal st')
        \<and> (in_flight st' \<noteq> [] \<longrightarrow> step Finish_destroy st' = Inr st' \<and> \<not> destroyed st'))"
proof -
  have 1: "\<not> drain_signal st \<longrightarrow> step Begin_destroy st = Inr (begin_destroy st)" by simp
  have 2: "\<forall>f \<in> set (in_flight st). interrupted (begin_destroy st) f"
    by (simp add: interrupted_def begin_destroy_sel)
  have 3: "begin_destroy st
          = destroy Drainer (destroy Local_interruptors (destroy Backfill_mailbox
              (destroy Cancel_backfill_mailbox (destroy Advertisement st))))"
    by (simp add: begin_destroy_def declared_members_def)
  have 4: "\<not> drain_signal st \<longrightarrow>
      \<not> drain_signal (destroy Advertisement st)
      \<and> \<not> drain_signal (destroy Backfill_mailbox (destroy Cancel_backfill_mailbox
              (destroy Advertisement st)))"
    by (simp add: lock_release_def)
  have 5: "advertisement (destroy Advertisement st) = None
      \<and> backfill_mailbox (destroy Advertisement st) = backfill_mailbox st
      \<and> cancel_backfill_mailbox (destroy Advertisement st) = cancel_backfill_mailbox st
      \<and> backfill_mailbox (destroy Backfill_mailbox (destroy Cancel_backfill_mailbox
              (destroy Advertisement st))) = None
      \<and> cancel_backfill_mailbox (destroy Backfill_mailbox (destroy Cancel_backfill_mailbox
              (destroy Advertisement st))) = None"
    by (simp add: lock_release_def)
  have A: "\<not> drain_signal st \<longrightarrow>
      step Begin_destroy st = Inr (begin_destroy st)
      \<and> begin_destroy st
          = destroy Drainer (destroy Local_interruptors (destroy Backfill_mailbox
              (destroy Cancel_backfill_mailbox (destroy Advertisement st))))
      \<and> teardown (begin_destroy st) = teardown st
          @ [Advertisement, Cancel_backfill_mailbox, Backfill_mailbox, Local_interruptors, Drainer]
      \<and> advertisement (destroy Advertisement st) = None
      \<and> backfill_mailbox (destroy Advertisement st) = backfill_mailbox st
      \<and> cancel_backfill_mailbox (destroy Advertisement st) = cancel_backfill_mailbox st
      \<and> \<not> drain_signal (destroy Advertisement st)
      \<and> \<not> drain_signal (destroy Backfill_mailbox (destroy Cancel_backfill_mailbox
              (destroy Advertisement st)))
      \<and> backfill_mailbox (destroy Backfill_mailbox (destroy Cancel_backfill_mailbox
              (destroy Advertisement st))) = None
      \<and> cancel_backfill_mailbox (destroy Backfill_mailbox (destroy Cancel_backfill_mailbox
              (destroy Advertisement st))) = None
      \<and> drain_signal (begin_destroy st)
      \<and> in_flight (begin_destroy st) = in_flight st
      \<and> (\<forall>f \<in> set (in_flight st). interrupted (begin_destroy st) f)"
    using 1 2 3 4 5 begin_destroy_sel(4,5,12) [of st] by blast
  have B: "backfiller_t c bh s sb = Inr b \<and> run evs b = Inr st' \<longrightarrow>
        (drain_signal st' \<longrightarrow> advertisement st' = None \<and> backfill_mailbox st' = None
           \<and> cancel_backfill_mailbox st' = None)
        \<and> (destroyed st' \<longrightarrow> in_flight st' = [] \<and> drain_signal st')
        \<and> (in_flight st' \<noteq> [] \<longrightarrow> step Finish_destroy st' = Inr st' \<and> \<not> destroyed st')"
    using destroyed_drained [of c bh s sb b evs st'] by blast
  from A B show ?thesis by (rule conjI)
qed

theorem destruction_withdraws_then_signals_witness:
  "\<not> drain_signal example_running
   \<and> step Begin_destroy example_running = Inr (begin_destroy example_running)
   \<and> teardown (begin_destroy example_running)
       = [Advertisement, Cancel_backfill_mailbox, Backfill_mailbox, Local_interruptors, Drainer]
   \<and> interrupted (begin_destroy example_running) example_frame
   \<and> backfiller_t \<lparr> next_mailbox = 100 \<rparr> example_history example_store 0 = Inr example_backfiller
   \<and> run [Deliver_backfill 3 1 20 21, Begin_destroy] example_backfiller
        = Inr (begin_destroy example_running)
   \<and> drain_signal (begin_destroy example_running)
   \<and> advertisement (begin_destroy example_running) = None
   \<and> in_flight (begin_destroy example_running) \<noteq> []
   \<and> step Finish_destroy (begin_destroy example_running) = Inr (begin_destroy example_running)
   \<and> \<not> destroyed (begin_destroy example_running)"
proof -
  note t = destruction_withdraws_then_signals
    [of example_running "\<lparr> next_mailbox = 100 \<rparr>" example_history example_store 0
      example_backfiller "[Deliver_backfill 3 1 20 21, Begin_destroy]" "begin_destroy example_running"]
  have n: "\<not> drain_signal example_running" by (simp add: example_running_sel)
  have fl: "in_flight (begin_destroy example_running) \<noteq> []"
    by (simp add: example_destroyed_sel)
  from t n have 1: "step Begin_destroy example_running = Inr (begin_destroy example_running)"
    "teardown (begin_destroy example_running) = teardown example_running
          @ [Advertisement, Cancel_backfill_mailbox, Backfill_mailbox, Local_interruptors, Drainer]"
    "drain_signal (begin_destroy example_running)"
    "\<forall>f \<in> set (in_flight example_running). interrupted (begin_destroy example_running) f"
    by blast+
  from 1(4) have 2: "interrupted (begin_destroy example_running) example_frame"
    by (simp add: example_running_sel)
  from t example_constructed example_destroyed_run 1(3)
  have 3: "advertisement (begin_destroy example_running) = None" by blast
  from t example_constructed example_destroyed_run fl
  have 4: "step Finish_destroy (begin_destroy example_running) = Inr (begin_destroy example_running)"
    "\<not> destroyed (begin_destroy example_running)" by blast+
  from n 1(1,3) 1(2) 2 example_constructed example_destroyed_run 3 fl 4 show ?thesis
    by (simp add: example_running_sel)
qed

text \<open>
  C7. A cancel-backfill message whose session id is not in the session registry is a
  no-op: the handler returns without an error and with the state it found, and so does
  the whole delivery of the message; no message is sent.
\<close>

theorem cancel_absent_is_noop:
  "local_interruptors st sid = None \<Longrightarrow>
     on_cancel_backfill sid st = Inr st \<and> step (Deliver_cancel sid) st = Inr st"
proof -
  assume absent: "local_interruptors st sid = None"
  have "local_interruptors (lock_acquire st) sid = None"
    using absent by (simp add: lock_acquire_def)
  then have "on_cancel_backfill sid (lock_acquire st) = Inr (lock_acquire st)"
    by (simp add: on_cancel_backfill_def)
  then have "step (Deliver_cancel sid) st = Inr st"
    by (simp add: lock_release_acquire)
  moreover have "on_cancel_backfill sid st = Inr st"
    using absent by (simp add: on_cancel_backfill_def)
  ultimately show ?thesis by simp
qed

theorem cancel_absent_is_noop_witness:
  "local_interruptors example_running 5 = None
   \<and> on_cancel_backfill 5 example_running = Inr example_running
   \<and> step (Deliver_cancel 5) example_running = Inr example_running"
  using cancel_absent_is_noop [of example_running 5]
  by (simp add: example_running_sel)

text \<open>
  C8, as the specification states it, fails: nothing removes the entry of the registry
  when the interruptor is pulsed, and \<open>on_cancel_backfill\<close> does not look whether the
  interruptor it finds is pulsed already. After a start-backfill message for session 3
  and one cancel, the handler is still running (the store has not been resumed), the
  session is still registered and its interruptor is pulsed; a second cancel for
  session 3 pulses it again.
\<close>

theorem second_cancel_pulses_again_counterexample:
  "run [Deliver_backfill 3 1 20 21, Deliver_cancel 3] example_backfiller = Inr example_cancelled
   \<and> local_interruptors example_cancelled 3 = Some 0
   \<and> conds example_cancelled 0 = Some True
   \<and> on_cancel_backfill 3 example_cancelled = Inl Pulse_of_pulsed_signal
   \<and> run [Deliver_backfill 3 1 20 21, Deliver_cancel 3, Deliver_cancel 3] example_backfiller
        = Inl Pulse_of_pulsed_signal"
proof -
  have p: "on_cancel_backfill 3 example_cancelled = Inl Pulse_of_pulsed_signal"
    "step (Deliver_cancel 3) example_cancelled = Inl Pulse_of_pulsed_signal"
    using step_cancel_pulsed [of example_cancelled 3 0] by (simp_all add: example_cancelled_sel)
  have "run [Deliver_backfill 3 1 20 21, Deliver_cancel 3, Deliver_cancel 3] example_backfiller
        = Inl Pulse_of_pulsed_signal"
    by (simp only: run_step [OF example_running_step] run_step [OF example_cancelled_step]
        run_step_error [OF p(2)])
  with p(1) example_cancelled_run show ?thesis by (simp add: example_cancelled_sel)
qed

text \<open>
  C8, amended. A cancel-backfill message whose session id is in the registry, and whose
  registered interruptor is not pulsed yet, pulses that interruptor once: the handler
  returns the state it found with that one signal pulsed and nothing else changed. The
  registered interruptor is not pulsed yet whenever no cancel for that session id has been
  handled before: handlers never pulse their own interruptor.
\<close>

theorem cancel_pulses_registered_signal:
  "(cancel_backfill_mailbox st \<noteq> None \<and> local_interruptors st sid = Some h
      \<and> conds st h = Some False \<longrightarrow>
        on_cancel_backfill sid st = Inr (st\<lparr> conds := (conds st)(h \<mapsto> True) \<rparr>)
        \<and> step (Deliver_cancel sid) st = Inr (st\<lparr> conds := (conds st)(h \<mapsto> True) \<rparr>))
   \<and> (backfiller_t c bh s sb = Inr b \<and> run evs b = Inr st' \<and> local_interruptors st' k = Some h'
      \<and> k \<notin> cancelled evs \<longrightarrow> conds st' h' = Some False)"
  using step_cancel_present [of st sid h] first_cancel_unpulsed [of c bh s sb b evs st' k h']
  by blast

theorem cancel_pulses_registered_signal_witness:
  "cancel_backfill_mailbox example_running \<noteq> None \<and> local_interruptors example_running 3 = Some 0
   \<and> conds example_running 0 = Some False
   \<and> on_cancel_backfill 3 example_running = Inr example_cancelled
   \<and> step (Deliver_cancel 3) example_running = Inr example_cancelled
   \<and> conds example_cancelled 0 = Some True
   \<and> backfiller_t \<lparr> next_mailbox = 100 \<rparr> example_history example_store 0 = Inr example_backfiller
   \<and> run [Deliver_backfill 3 1 20 21] example_backfiller = Inr example_running
   \<and> 3 \<notin> cancelled [Deliver_backfill 3 1 20 21]"
proof -
  have a: "cancel_backfill_mailbox example_running \<noteq> None \<and> local_interruptors example_running 3 = Some 0"
    by (simp add: example_running_sel)
  have n: "3 \<notin> cancelled [Deliver_backfill 3 1 20 21]" by simp
  have u: "conds example_running 0 = Some False"
    using cancel_pulses_registered_signal
      [of example_running 3 0 "\<lparr> next_mailbox = 100 \<rparr>" example_history example_store 0
        example_backfiller "[Deliver_backfill 3 1 20 21]" example_running 3 0]
      example_constructed example_running_run a n by blast
  have "on_cancel_backfill 3 example_running = Inr example_cancelled
    \<and> step (Deliver_cancel 3) example_running = Inr example_cancelled"
    using cancel_pulses_registered_signal
      [of example_running 3 0 "\<lparr> next_mailbox = 100 \<rparr>" example_history example_store 0
        example_backfiller "[Deliver_backfill 3 1 20 21]" example_running 3 0] a u
    by (simp add: example_cancelled_def example_running_sel)
  with a u n example_constructed example_running_run show ?thesis
    by (simp add: example_cancelled_sel)
qed

text \<open>
  C9, as the specification states it, fails: \<open>on_backfill\<close> catches \<open>interrupted_exc_t\<close>
  only. When the store fails with an exception of another type, the handler does not
  return: the exception leaves \<open>on_backfill\<close>, and in a schedule it surfaces as an
  uncaught exception. Here the backfiller handles a request on which the store fails.
\<close>

theorem store_exception_not_absorbed_counterexample:
  "on_backfill_exit example_frame (Threw store_exc_t) example_running
     = Handler_threw store_exc_t (scope_exit example_frame example_running)
   \<and> run [Deliver_backfill 4 2 30 31, Resume 0] example_backfiller
     = Inl (Uncaught_exception store_exc_t)"
proof -
  let ?st = "on_backfill_enter 4 2 30 31 (lock_acquire example_backfiller)"
  let ?f = "\<lparr> local_interruptor = 0, session_id = 4, chunk_cont = 30, end_cont = 31, store_call = Throw \<rparr>"
  have f: "find (\<lambda>g. local_interruptor g = 0) (in_flight ?st) = Some ?f"
    by (simp add: example_failing_sel)
  have i: "\<not> interrupted ?st ?f"
    by (simp add: interrupted_def example_failing_sel)
  have a: "\<not> registry_destroyed ?st"
    by (simp add: example_failing_sel)
  have "step (Resume 0) ?st = Inl (Uncaught_exception store_exc_t)"
    using step_resume_throw [OF f i _ a] by simp
  then have "run [Deliver_backfill 4 2 30 31, Resume 0] example_backfiller
     = Inl (Uncaught_exception store_exc_t)"
    by (simp add: example_failing_step del: step.simps)
  then show ?thesis by (simp add: on_backfill_exit_def leave_scope_def example_running_sel)
qed

text \<open>
  C9, amended. When the call of the store ends with an exception other than the
  interruption, the handler does not catch it: in no state does \<open>on_backfill\<close> return,
  no message is sent on the way out, and the resumption in which the store fails ends
  the schedule with an error. While the map \<open>local_interruptors\<close> is alive, and so in
  every state the backfiller reaches with a handler that is not interrupted, the
  exception propagates out of \<open>on_backfill\<close> and the schedule ends with that uncaught
  exception.
\<close>

theorem store_exception_propagates:
  "on_backfill_exit f (Threw store_exc_t) st \<noteq> Handler_returned st'
   \<and> outbox (scope_exit f st) = outbox st
   \<and> isl (handler_return (on_backfill_exit f (Threw store_exc_t) st))
   \<and> (\<not> registry_destroyed st \<longrightarrow>
        on_backfill_exit f (Threw store_exc_t) st = Handler_threw store_exc_t (scope_exit f st)
        \<and> handler_return (on_backfill_exit f (Threw store_exc_t) st)
            = Inl (Uncaught_exception store_exc_t))
   \<and> (find (\<lambda>g. local_interruptor g = h) (in_flight st) = Some f \<and> \<not> interrupted st f
        \<and> store_call f = Throw \<longrightarrow> isl (step (Resume h) st))
   \<and> (find (\<lambda>g. local_interruptor g = h) (in_flight st) = Some f \<and> \<not> interrupted st f
        \<and> store_call f = Throw \<and> \<not> registry_destroyed st \<longrightarrow>
        step (Resume h) st = Inl (Uncaught_exception store_exc_t))
   \<and> (backfiller_t c bh s sb = Inr b \<and> run evs b = Inr st
        \<and> find (\<lambda>g. local_interruptor g = h) (in_flight st) = Some f \<and> \<not> interrupted st f
        \<and> store_call f = Throw \<longrightarrow>
        step (Resume h) st = Inl (Uncaught_exception store_exc_t))"
proof -
  have 1: "on_backfill_exit f (Threw store_exc_t) st \<noteq> Handler_returned st'"
    by (simp add: on_backfill_exit_def leave_scope_def)
  have 2: "outbox (scope_exit f st) = outbox st" by (simp add: scope_exit_def)
  have 3: "isl (handler_return (on_backfill_exit f (Threw store_exc_t) st))"
    by (simp add: on_backfill_exit_def leave_scope_def handler_return_def)
  have 4: "\<not> registry_destroyed st \<longrightarrow>
        on_backfill_exit f (Threw store_exc_t) st = Handler_threw store_exc_t (scope_exit f st)
        \<and> handler_return (on_backfill_exit f (Threw store_exc_t) st)
            = Inl (Uncaught_exception store_exc_t)"
    by (simp add: on_backfill_exit_def leave_scope_def handler_return_def)
  have 5: "find (\<lambda>g. local_interruptor g = h) (in_flight st) = Some f \<and> \<not> interrupted st f
        \<and> store_call f = Throw \<longrightarrow> isl (step (Resume h) st)"
    using 3 by (simp add: resume_def)
  have 6: "find (\<lambda>g. local_interruptor g = h) (in_flight st) = Some f \<and> \<not> interrupted st f
        \<and> store_call f = Throw \<and> \<not> registry_destroyed st \<longrightarrow>
        step (Resume h) st = Inl (Uncaught_exception store_exc_t)"
    using step_resume_throw [of h st f] by blast
  have 7: "backfiller_t c bh s sb = Inr b \<and> run evs b = Inr st
        \<and> find (\<lambda>g. local_interruptor g = h) (in_flight st) = Some f \<and> \<not> interrupted st f
        \<and> store_call f = Throw \<longrightarrow>
        step (Resume h) st = Inl (Uncaught_exception store_exc_t)"
    using step_resume_throw [of h st f] alive_unless_interrupted [of c bh s sb b evs st f]
    by blast
  from 1 2 3 4 5 6 7 show ?thesis by blast
qed

theorem store_exception_propagates_witness:
  "backfiller_t \<lparr> next_mailbox = 100 \<rparr> example_history example_store 0 = Inr example_backfiller
   \<and> run [Deliver_backfill 4 2 30 31] example_backfiller
       = Inr (on_backfill_enter 4 2 30 31 (lock_acquire example_backfiller))
   \<and> find (\<lambda>g. local_interruptor g = 0)
       (in_flight (on_backfill_enter 4 2 30 31 (lock_acquire example_backfiller)))
     = Some \<lparr> local_interruptor = 0, session_id = 4, chunk_cont = 30, end_cont = 31, store_call = Throw \<rparr>
   \<and> \<not> interrupted (on_backfill_enter 4 2 30 31 (lock_acquire example_backfiller))
         \<lparr> local_interruptor = 0, session_id = 4, chunk_cont = 30, end_cont = 31, store_call = Throw \<rparr>
   \<and> \<not> registry_destroyed (on_backfill_enter 4 2 30 31 (lock_acquire example_backfiller))
   \<and> step (Resume 0) (on_backfill_enter 4 2 30 31 (lock_acquire example_backfiller))
     = Inl (Uncaught_exception store_exc_t)"
proof -
  let ?st = "on_backfill_enter 4 2 30 31 (lock_acquire example_backfiller)"
  let ?f = "\<lparr> local_interruptor = 0, session_id = 4, chunk_cont = 30, end_cont = 31, store_call = Throw \<rparr>"
  have f: "find (\<lambda>g. local_interruptor g = 0) (in_flight ?st) = Some ?f"
    by (simp add: example_failing_sel)
  have i: "\<not> interrupted ?st ?f"
    by (simp add: interrupted_def example_failing_sel)
  have a: "\<not> registry_destroyed ?st"
    by (simp add: example_failing_sel)
  have r: "run [Deliver_backfill 4 2 30 31] example_backfiller = Inr ?st"
    by (simp only: run_step [OF example_failing_step] run.simps(1))
  have t: "store_call ?f = Throw" by simp
  note u = store_exception_propagates
    [where f = ?f and st = ?st and h = 0 and c = "\<lparr> next_mailbox = 100 \<rparr>"
      and bh = example_history and s = example_store and sb = 0 and b = example_backfiller
      and evs = "[Deliver_backfill 4 2 30 31]"]
  from u example_constructed r f i t
  have "step (Resume 0) ?st = Inl (Uncaught_exception store_exc_t)" by blast
  with example_constructed r f i a show ?thesis by blast
qed




end
